theory Spec2Isabelle
  imports Complex_Main
begin

section \<open>Subgradient methods for set covering: the instance\<close>

text \<open>
  The C module keeps the loaded instance in static variables: the two counts, the cost
  vector, and the constraint matrix twice, column-wise and row-wise, each as a
  compressed pair (entries, start index of every line plus one final index).
  C \<open>int\<close> values are modelled as integers (\<open>nat\<close> where the value is an array index or a
  size) and the \<open>int\<close> operations whose result can leave the range of a 32-bit \<open>int\<close>
  (the products of two subgradient entries and, in the loader, the values read by \<open>atoi\<close>,
  the column index \<open>atoi(token) - 1\<close> and the sum of the row sizes) wrap around modulo
  \<open>2 ^ 32\<close>, as the compiled code does. C \<open>double\<close> values are modelled as exact reals; the places where an IEEE
  special value arises by construction are modelled explicitly further below.
\<close>

record scp_instance =
  num_col :: nat
  num_row :: nat
  costs :: "int list"
  col_wise_a :: "nat list"
  col_wise_idx :: "nat list"
  row_wise_a :: "nat list"
  row_wise_idx :: "nat list"
  col_sizes :: "nat list"
  row_sizes :: "int list"

text \<open>
  The value of an integer as a 32-bit \<open>int\<close>, and \<open>a * b\<close> for two \<open>int\<close> operands, which C
  computes in \<open>int\<close> before any conversion of the result.
\<close>

definition wrap_int :: "int \<Rightarrow> int" where
  "wrap_int v = (v + 2 ^ 31) mod 2 ^ 32 - 2 ^ 31"

definition int_mult :: "int \<Rightarrow> int \<Rightarrow> int" where
  "int_mult a b = wrap_int (a * b)"

text \<open>\<open>pow(10,-14)\<close> and the macro \<open>ZERO_TOL\<close>, \<open>pow(10,-12)\<close>.\<close>

definition tol14 :: real where
  "tol14 = 1 / 10 ^ 14"

definition ZERO_TOL :: real where
  "ZERO_TOL = 1 / 10 ^ 12"

text \<open>
  The rows visited by \<open>for (j = col_wise_idx[i]; j < col_wise_idx[i+1]; j++)\<close> reading
  \<open>col_wise_a[j]\<close>, and the columns visited by the same loop over the row-wise pair.
\<close>

definition col_rows :: "scp_instance \<Rightarrow> nat \<Rightarrow> nat list" where
  "col_rows inst i =
     map (\<lambda>j. col_wise_a inst ! j) [col_wise_idx inst ! i ..< col_wise_idx inst ! (i + 1)]"

definition row_cols :: "scp_instance \<Rightarrow> nat \<Rightarrow> nat list" where
  "row_cols inst i =
     map (\<lambda>j. row_wise_a inst ! j) [row_wise_idx inst ! i ..< row_wise_idx inst ! (i + 1)]"

text \<open>
  A well-formed instance is what a successful load leaves behind: arrays of the declared
  lengths, index ranges inside the entry arrays, entries inside the declared counts,
  \<open>col_sizes\<close> the number of entries of each column, and the two matrices transposes of
  each other (an entry read from the file is appended to its row and to its column).
  Outside well-formed instances the C code reads or writes out of bounds.
\<close>

definition wf_instance :: "scp_instance \<Rightarrow> bool" where
  "wf_instance inst \<longleftrightarrow>
     length (costs inst) = num_col inst \<and>
     length (col_sizes inst) = num_col inst \<and>
     length (col_wise_idx inst) = num_col inst + 1 \<and>
     length (row_wise_idx inst) = num_row inst + 1 \<and>
     list_all (\<lambda>i. col_wise_idx inst ! (i + 1) \<le> length (col_wise_a inst)) [0..<num_col inst] \<and>
     list_all (\<lambda>i. row_wise_idx inst ! (i + 1) \<le> length (row_wise_a inst)) [0..<num_row inst] \<and>
     list_all (\<lambda>i. list_all (\<lambda>r. r < num_row inst) (col_rows inst i)) [0..<num_col inst] \<and>
     list_all (\<lambda>i. list_all (\<lambda>c. c < num_col inst) (row_cols inst i)) [0..<num_row inst] \<and>
     list_all (\<lambda>i. col_sizes inst ! i = length (col_rows inst i)) [0..<num_col inst] \<and>
     list_all (\<lambda>i. list_all (\<lambda>r. count_list (col_rows inst i) r = count_list (row_cols inst r) i)
                 [0..<num_row inst]) [0..<num_col inst]"

text \<open>
  The data model's further assumptions on an instance: costs are non-negative and every
  row has at least one incident column.
\<close>

definition valid_instance :: "scp_instance \<Rightarrow> bool" where
  "valid_instance inst \<longleftrightarrow>
     wf_instance inst \<and>
     list_all (\<lambda>c. 0 \<le> c) (costs inst) \<and>
     list_all (\<lambda>i. row_wise_idx inst ! i < row_wise_idx inst ! (i + 1)) [0..<num_row inst]"

text \<open>
  The toy instance of the specification: two rows, three columns of cost 1, row 0 covered
  by columns 0 and 1, row 1 by columns 1 and 2.
\<close>

definition toy :: scp_instance where
  "toy = \<lparr> num_col = 3, num_row = 2, costs = [1, 1, 1],
           col_wise_a = [0, 0, 1, 1], col_wise_idx = [0, 1, 3, 4],
           row_wise_a = [0, 1, 1, 2], row_wise_idx = [0, 2, 4],
           col_sizes = [1, 2, 1], row_sizes = [2, 2] \<rparr>"

section \<open>The subgradient vector, strict variant\<close>

text \<open>
  \<open>compute_subg_vector_sps\<close>: every entry starts at 1; every column whose reduced cost is
  below \<open>pow(10,-14)\<close> decrements the entry of each of its rows; the result is \<open>-1\<close> when
  no entry is non-zero and \<open>0\<close> otherwise.
\<close>

definition decr_rows :: "nat list \<Rightarrow> int list \<Rightarrow> int list" where
  "decr_rows rs subg = fold (\<lambda>r s. s[r := s ! r - 1]) rs subg"

definition count_subg :: "scp_instance \<Rightarrow> real list \<Rightarrow> int list" where
  "count_subg inst reduced_costs =
     fold (\<lambda>i subg. if reduced_costs ! i < tol14 then decr_rows (col_rows inst i) subg else subg)
       [0..<num_col inst] (replicate (num_row inst) 1)"

fun scan_nonzero :: "int list \<Rightarrow> int" where
  "scan_nonzero [] = - 1"
| "scan_nonzero (v # vs) = (if v \<noteq> 0 then 0 else scan_nonzero vs)"

definition compute_subg_vector_sps :: "scp_instance \<Rightarrow> real list \<Rightarrow> int list \<times> int" where
  "compute_subg_vector_sps inst reduced_costs =
     (let subg = count_subg inst reduced_costs in (subg, scan_nonzero subg))"

text \<open>
  The two readings of "number of incident columns" that the text offers: the entries of
  row \<open>r\<close> in columns whose reduced cost is below the threshold, and those in columns whose
  reduced cost is at least the threshold.
\<close>

definition cover_below :: "scp_instance \<Rightarrow> real list \<Rightarrow> nat \<Rightarrow> nat" where
  "cover_below inst reduced_costs r =
     (\<Sum>i\<leftarrow>[0..<num_col inst].
        if reduced_costs ! i < tol14 then count_list (col_rows inst i) r else 0)"

definition cover_at_least :: "scp_instance \<Rightarrow> real list \<Rightarrow> nat \<Rightarrow> nat" where
  "cover_at_least inst reduced_costs r =
     (\<Sum>i\<leftarrow>[0..<num_col inst].
        if tol14 \<le> reduced_costs ! i then count_list (col_rows inst i) r else 0)"

section \<open>The subgradient vector, sign-aware variant\<close>

text \<open>
  \<open>compute_subg_vector_basic\<close> builds the same vector, then scans it once: a non-zero
  entry clears \<open>is_opt\<close>; it is set to zero when it is negative and the dual of its row is
  below \<open>pow(10,-14)\<close>, and otherwise its square, an \<open>int\<close> product, is added to the
  \<open>long long\<close> \<open>norm\<close> (here \<open>nrm\<close>). The result is \<open>-1\<close> when \<open>is_opt\<close> survived, and
  otherwise \<open>norm\<close>, replaced by 1 when it is 0.
\<close>

definition clamp_step :: "real list \<Rightarrow> nat \<Rightarrow> int list \<times> int \<times> bool \<Rightarrow> int list \<times> int \<times> bool" where
  "clamp_step dual i = (\<lambda>(subg, nrm, is_opt).
     if subg ! i \<noteq> 0 then
       (if subg ! i < 0 \<and> dual ! i < tol14 then (subg[i := 0], nrm, False)
        else (subg, nrm + int_mult (subg ! i) (subg ! i), False))
     else (subg, nrm, is_opt))"

definition compute_subg_vector_basic :: "scp_instance \<Rightarrow> real list \<Rightarrow> real list \<Rightarrow> int list \<times> int" where
  "compute_subg_vector_basic inst reduced_costs dual =
     (case fold (clamp_step dual) [0..<num_row inst] (count_subg inst reduced_costs, 0, True) of
        (subg, nrm, is_opt) \<Rightarrow>
          if is_opt then (subg, - 1) else (subg, if nrm = 0 then 1 else nrm))"

text \<open>The entry of a row after the clamping step, from its entry before.\<close>

definition clamped :: "real list \<Rightarrow> int list \<Rightarrow> nat \<Rightarrow> int" where
  "clamped dual subg r = (if subg ! r < 0 \<and> dual ! r < tol14 then 0 else subg ! r)"

text \<open>
  No row has so many entries that the square of a subgradient entry leaves the range of
  \<open>int\<close>: an entry lies between 1 minus the number of entries of its row and 1, and 46340
  is the largest integer whose square is below \<open>2 ^ 31\<close>.
\<close>

definition narrow_rows :: "scp_instance \<Rightarrow> bool" where
  "narrow_rows inst \<longleftrightarrow> list_all (\<lambda>r. length (row_cols inst r) \<le> 46341) [0..<num_row inst]"

text \<open>One row covered by two columns of cost 0.\<close>

definition two_col :: scp_instance where
  "two_col = \<lparr> num_col = 2, num_row = 1, costs = [0, 0],
               col_wise_a = [0, 0], col_wise_idx = [0, 1, 2],
               row_wise_a = [0, 1], row_wise_idx = [0, 2],
               col_sizes = [1, 1], row_sizes = [2] \<rparr>"

section \<open>The initial dual vector\<close>

text \<open>
  \<open>init_dual_vector\<close>: for each row, \<open>min_value\<close> starts at the cost of the first column of
  the row (an integer, not divided by the column's size) and is lowered to
  \<open>(double) costs[idx] / col_sizes[idx]\<close> for every column of the row; the row's dual is
  \<open>min_value\<close>, and the returned objective is the sum of the duals. The reduced cost of a
  column is its cost minus the duals of its rows, subtracted one after the other.
\<close>

definition min_value_of_row :: "scp_instance \<Rightarrow> nat \<Rightarrow> real" where
  "min_value_of_row inst i =
     fold (\<lambda>idx min_value.
             let value = real_of_int (costs inst ! idx) / real (col_sizes inst ! idx)
             in if value < min_value then value else min_value)
       (row_cols inst i)
       (real_of_int (costs inst ! (row_wise_a inst ! (row_wise_idx inst ! i))))"

definition reduced_cost_of_col :: "scp_instance \<Rightarrow> real list \<Rightarrow> nat \<Rightarrow> real" where
  "reduced_cost_of_col inst dual i =
     fold (\<lambda>idx value. value - dual ! idx) (col_rows inst i) (real_of_int (costs inst ! i))"

definition compute_reduced_costs :: "scp_instance \<Rightarrow> real list \<Rightarrow> real list" where
  "compute_reduced_costs inst dual = map (reduced_cost_of_col inst dual) [0..<num_col inst]"

definition init_dual_vector :: "scp_instance \<Rightarrow> real list \<times> real list \<times> real" where
  "init_dual_vector inst =
     (let dual = map (min_value_of_row inst) [0..<num_row inst];
          obj_value = fold (\<lambda>min_value obj. obj + min_value) dual 0
      in (dual, compute_reduced_costs inst dual, obj_value))"

text \<open>
  The Lagrangian objective in the words of the specification,
  \<open>\<Sigma> dual[row] + \<Sigma> min(0, reducedCost[col])\<close>, and the reduced cost of a column from
  scratch, \<open>cost[col] - \<Sigma> dual[row]\<close> over the rows incident to the column.
\<close>

definition objective_spec :: "real list \<Rightarrow> real list \<Rightarrow> real" where
  "objective_spec dual reduced_costs = sum_list dual + (\<Sum>v\<leftarrow>reduced_costs. min 0 v)"

definition reduced_cost_spec :: "scp_instance \<Rightarrow> real list \<Rightarrow> nat \<Rightarrow> real" where
  "reduced_cost_spec inst dual c =
     real_of_int (costs inst ! c) - (\<Sum>r\<leftarrow>col_rows inst c. dual ! r)"

text \<open>The share \<open>cost[col] / colSize[col]\<close> of a column.\<close>

definition cost_share :: "scp_instance \<Rightarrow> nat \<Rightarrow> real" where
  "cost_share inst c = real_of_int (costs inst ! c) / real (col_sizes inst ! c)"

section \<open>State shared by the two drivers\<close>

text \<open>
  Both drivers allocate two dual buffers, \<open>dual1\<close> and \<open>dual2\<close>, and move three pointers
  \<open>curr_dual\<close>, \<open>old_dual\<close> and \<open>best_dual\<close> over them; \<open>curr_dual\<close> and \<open>old_dual\<close> often
  point to the same buffer. The pointers are modelled as buffer names and the buffers as
  an explicit store, so that the aliasing is the code's. \<open>dual2\<close> comes from \<open>malloc\<close> and
  is not written before the first swap: its initial content is a parameter of the drivers.
\<close>

datatype buffer = Dual1 | Dual2

record dual_state =
  dual1 :: "real list"
  dual2 :: "real list"
  curr_dual :: buffer
  old_dual :: buffer
  best_dual :: buffer
  reduced_costs :: "real list"
  curr_obj :: real
  best_obj :: real

definition buf :: "'a dual_state_scheme \<Rightarrow> buffer \<Rightarrow> real list" where
  "buf s b = (case b of Dual1 \<Rightarrow> dual1 s | Dual2 \<Rightarrow> dual2 s)"

definition store :: "buffer \<Rightarrow> nat \<Rightarrow> real \<Rightarrow> 'a dual_state_scheme \<Rightarrow> 'a dual_state_scheme" where
  "store b i v s =
     (case b of Dual1 \<Rightarrow> s\<lparr>dual1 := (dual1 s)[i := v]\<rparr>
              | Dual2 \<Rightarrow> s\<lparr>dual2 := (dual2 s)[i := v]\<rparr>)"

text \<open>
  \<open>for (j = row_wise_idx[i]; j < row_wise_idx[i+1]; j++) reduced_costs[row_wise_a[j]] -= value\<close>
  and the same loop with \<open>+=\<close>.
\<close>

definition subtract_from_cols :: "scp_instance \<Rightarrow> nat \<Rightarrow> real \<Rightarrow> real list \<Rightarrow> real list" where
  "subtract_from_cols inst i value rc = fold (\<lambda>c rc. rc[c := rc ! c - value]) (row_cols inst i) rc"

definition add_to_cols :: "scp_instance \<Rightarrow> nat \<Rightarrow> real \<Rightarrow> real list \<Rightarrow> real list" where
  "add_to_cols inst i value rc = fold (\<lambda>c rc. rc[c := rc ! c + value]) (row_cols inst i) rc"

text \<open>\<open>for (i = 0; i < num_col; i++) if (reduced_costs[i] < 0) curr_obj += reduced_costs[i]\<close>.\<close>

definition add_negative :: "real list \<Rightarrow> real \<Rightarrow> real" where
  "add_negative rc obj = fold (\<lambda>v obj. if v < 0 then obj + v else obj) rc obj"

section \<open>The spectral projected subgradient driver\<close>

text \<open>
  The tolerance \<open>eta\<close> is \<open>eta_not / pow(itr, 1.1)\<close>, and \<open>pow(0, 1.1)\<close> is 0. The divisor
  can therefore be zero, and \<open>eta\<close> and the threshold \<open>accept\<close> computed from it are modelled
  with the IEEE special values that such a division produces; every other quantity is a
  real number.
\<close>

datatype ieee = NaN | MInf | Fin real | PInf

definition ieee_div :: "real \<Rightarrow> real \<Rightarrow> ieee" where
  "ieee_div a b =
     (if b = 0 then (if 0 < a then PInf else if a < 0 then MInf else NaN) else Fin (a / b))"

text \<open>
  \<open>sqrt\<close> of a double, which is NaN for a negative argument, and the quotient of a value
  that may be NaN by a double.
\<close>

definition ieee_sqrt :: "real \<Rightarrow> ieee" where
  "ieee_sqrt x = (if x < 0 then NaN else Fin (sqrt x))"

fun ieee_quot :: "ieee \<Rightarrow> real \<Rightarrow> ieee" where
  "ieee_quot NaN b = NaN"
| "ieee_quot MInf b = (if b < 0 then PInf else MInf)"
| "ieee_quot (Fin a) b = ieee_div a b"
| "ieee_quot PInf b = (if b < 0 then MInf else PInf)"

fun fin_minus :: "real \<Rightarrow> ieee \<Rightarrow> ieee" where
  "fin_minus a NaN = NaN"
| "fin_minus a MInf = PInf"
| "fin_minus a (Fin b) = Fin (a - b)"
| "fin_minus a PInf = MInf"

fun minus_fin :: "ieee \<Rightarrow> real \<Rightarrow> ieee" where
  "minus_fin NaN b = NaN"
| "minus_fin MInf b = MInf"
| "minus_fin (Fin a) b = Fin (a - b)"
| "minus_fin PInf b = PInf"

fun less_ieee :: "real \<Rightarrow> ieee \<Rightarrow> bool" where
  "less_ieee a NaN = False"
| "less_ieee a MInf = False"
| "less_ieee a (Fin b) = (a < b)"
| "less_ieee a PInf = True"

definition M :: nat where
  "M = 10"

definition mu :: real where
  "mu = 7 / 10"

definition gamma :: real where
  "gamma = 1 / 10"

text \<open>
  The local variables of \<open>spectral_projected_subgradient\<close>. The pair of arrays \<open>dd\<close>,
  \<open>dd_idx\<close> with its length \<open>dd_size\<close> is the list of the changed rows with their changes, in
  the order in which they were recorded. A slot of \<open>past_objs\<close> that has not been written
  yet is \<open>None\<close>.
\<close>

record sps_state = dual_state +
  momentum :: "real list"
  dd :: "(nat \<times> real) list"
  subg1 :: "int list"
  subg2 :: "int list"
  worst_obj :: real
  past_objs :: "real option list"
  worst_obj_idx :: nat
  sub_obj :: real
  product :: real
  alpha :: real
  eta_not :: ieee
  tau :: real
  accept :: ieee
  is_opt :: bool

definition old_subg :: "nat \<Rightarrow> sps_state \<Rightarrow> int list" where
  "old_subg itr s = (if itr mod 2 = 0 then subg1 s else subg2 s)"

definition curr_subg :: "nat \<Rightarrow> sps_state \<Rightarrow> int list" where
  "curr_subg itr s = (if itr mod 2 = 0 then subg2 s else subg1 s)"

text \<open>The body of the loop over the rows that updates the momentum and the dual vector.\<close>

definition update_row :: "scp_instance \<Rightarrow> int list \<Rightarrow> nat \<Rightarrow> sps_state \<Rightarrow> sps_state" where
  "update_row inst g i s =
     (let m = alpha s * real_of_int (g ! i) + mu * (momentum s ! i);
          s = s\<lparr>momentum := (momentum s)[i := m]\<rparr>;
          old = buf s (old_dual s) ! i;
          value = old + m;
          value = (if value < 0 then 0 else value);
          value = value - old;
          s = (if value < - ZERO_TOL \<or> ZERO_TOL < value then
                 store (curr_dual s) i (old + value)
                   (s\<lparr>dd := dd s @ [(i, value)], product := product s + value * m,
                      reduced_costs := subtract_from_cols inst i value (reduced_costs s)\<rparr>)
               else store (curr_dual s) i old s)
      in s\<lparr>sub_obj := sub_obj s + buf s (curr_dual s) ! i\<rparr>)"

text \<open>
  An iteration up to the first test of the line search: the tentative step with its
  objective, then the scaled \<open>product\<close>, \<open>tau\<close> and the threshold \<open>accept\<close>.
\<close>

definition tentative_step :: "scp_instance \<Rightarrow> nat \<Rightarrow> sps_state \<Rightarrow> sps_state" where
  "tentative_step inst itr s =
     (let s = s\<lparr>dd := [], sub_obj := 0, product := 0\<rparr>;
          s = fold (update_row inst (old_subg itr s)) [0..<num_row inst] s
      in s\<lparr>curr_obj := add_negative (reduced_costs s) (sub_obj s)\<rparr>)"

definition start_search :: "nat \<Rightarrow> sps_state \<Rightarrow> sps_state" where
  "start_search itr s =
     (let s = s\<lparr>product := product s / alpha s, tau := 1\<rparr>;
          eta = ieee_quot (eta_not s) (real itr powr (11 / 10))
      in s\<lparr>accept := fin_minus (worst_obj s + gamma * tau s * product s) eta\<rparr>)"

definition tentative :: "scp_instance \<Rightarrow> nat \<Rightarrow> sps_state \<Rightarrow> sps_state" where
  "tentative inst itr s = start_search itr (tentative_step inst itr s)"

text \<open>The body of the line search: halve \<open>tau\<close>, take back part of every recorded change.\<close>

definition rollback_row :: "scp_instance \<Rightarrow> nat \<times> real \<Rightarrow> sps_state \<Rightarrow> sps_state" where
  "rollback_row inst = (\<lambda>(i, d) s.
     let value = tau s * d in
     if value < - ZERO_TOL \<or> ZERO_TOL < value then
       (store (curr_dual s) i (buf s (curr_dual s) ! i - value) s)
         \<lparr>sub_obj := sub_obj s - value,
          reduced_costs := add_to_cols inst i value (reduced_costs s)\<rparr>
     else s)"

definition ls_body :: "scp_instance \<Rightarrow> sps_state \<Rightarrow> sps_state" where
  "ls_body inst s =
     (let s = s\<lparr>tau := tau s * (1 / 2)\<rparr>;
          s = fold (rollback_row inst) (dd s) s;
          s = s\<lparr>curr_obj := add_negative (reduced_costs s) (sub_obj s)\<rparr>
      in s\<lparr>accept := minus_fin (accept s) (gamma * tau s * product s)\<rparr>)"

definition ls_cond :: "sps_state \<Rightarrow> bool" where
  "ls_cond s = less_ieee (curr_obj s) (accept s)"

text \<open>The \<open>while (curr_obj < accept)\<close> loop; \<open>None\<close> when it does not terminate.\<close>

partial_function (option) line_search :: "scp_instance \<Rightarrow> sps_state \<Rightarrow> sps_state option" where
  "line_search inst s = (if ls_cond s then line_search inst (ls_body inst s) else Some s)"

text \<open>The update of the best solution, with the swap of the pointers.\<close>

definition update_best :: "sps_state \<Rightarrow> sps_state" where
  "update_best s =
     (if best_obj s < curr_obj s then
        s\<lparr>best_obj := curr_obj s, old_dual := curr_dual s, curr_dual := best_dual s,
          best_dual := curr_dual s\<rparr>
      else s\<lparr>old_dual := curr_dual s\<rparr>)"

definition next_subg :: "scp_instance \<Rightarrow> nat \<Rightarrow> sps_state \<Rightarrow> sps_state" where
  "next_subg inst itr s =
     (case compute_subg_vector_sps inst (reduced_costs s) of
        (g, ret) \<Rightarrow>
          (if itr mod 2 = 0 then s\<lparr>subg2 := g\<rparr> else s\<lparr>subg1 := g\<rparr>)\<lparr>is_opt := (ret \<noteq> 0)\<rparr>)"

definition update_alpha :: "nat \<Rightarrow> sps_state \<Rightarrow> sps_state" where
  "update_alpha itr s =
     (let a = fold (\<lambda>(i, value) a. a + value * value) (dd s) 0;
          alpha_deno =
            fold (\<lambda>(i, value) a. a + value * real_of_int (old_subg itr s ! i - curr_subg itr s ! i))
              (dd s) 0
      in s\<lparr>alpha := (if alpha_deno < ZERO_TOL then 1 / 10 else tau s * a / alpha_deno)\<rparr>)"

text \<open>
  The window of the last \<open>M\<close> objective values: the rescan \<open>for (j = M-1; j >= 0; j--)\<close>,
  which fails when it reads a slot that was never written, and the update at the end of
  an iteration.
\<close>

definition rescan :: "real option list \<Rightarrow> real \<Rightarrow> nat \<Rightarrow> (real \<times> nat) option" where
  "rescan past w idx =
     fold (\<lambda>j st. case st of
                     None \<Rightarrow> None
                   | Some (w, idx) \<Rightarrow>
                       (case past ! j of
                          None \<Rightarrow> None
                        | Some v \<Rightarrow> if v < w then Some (v, j) else Some (w, idx)))
       (rev [0..<M]) (Some (w, idx))"

definition update_worst ::
  "nat \<Rightarrow> real \<Rightarrow> real option list \<times> real \<times> nat \<Rightarrow> (real option list \<times> real \<times> nat) option" where
  "update_worst itr obj = (\<lambda>(past, worst, widx).
     let i = (itr + 1) mod M; past = past[i := Some obj] in
     if i = widx then
       (if obj \<le> worst then Some (past, obj, widx)
        else (case rescan past obj widx of
                None \<Rightarrow> None
              | Some (w, j) \<Rightarrow> Some (past, w, j)))
     else if obj < worst then Some (past, obj, i)
     else Some (past, worst, widx))"

datatype fault = Diverges | Uninitialised_read

text \<open>
  One pass through the body of the main loop. The result is the state at the \<open>break\<close>
  (\<open>is_opt\<close> set) or at the end of the body.
\<close>

definition sps_iteration :: "scp_instance \<Rightarrow> nat \<Rightarrow> sps_state \<Rightarrow> fault + sps_state" where
  "sps_iteration inst itr s =
     (case line_search inst (tentative inst itr s) of
        None \<Rightarrow> Inl Diverges
      | Some s \<Rightarrow>
          let s = next_subg inst itr (update_best s) in
          if is_opt s then Inr s
          else
            (let s = update_alpha itr s in
             case update_worst itr (curr_obj s) (past_objs s, worst_obj s, worst_obj_idx s) of
               None \<Rightarrow> Inl Uninitialised_read
             | Some (p, w, j) \<Rightarrow> Inr (s\<lparr>past_objs := p, worst_obj := w, worst_obj_idx := j\<rparr>)))"

text \<open>The main loop; the first argument counts the iterations that remain.\<close>

fun sps_loop :: "scp_instance \<Rightarrow> nat \<Rightarrow> nat \<Rightarrow> sps_state \<Rightarrow> fault + sps_state" where
  "sps_loop inst 0 itr s = Inr s"
| "sps_loop inst (Suc n) itr s =
     (case sps_iteration inst itr s of
        Inl e \<Rightarrow> Inl e
      | Inr s' \<Rightarrow> if is_opt s' then Inr s' else sps_loop inst n (itr + 1) s')"

text \<open>
  The state after the initialisation, before the test \<open>if (is_opt) goto cleanup\<close>. Local
  variables that the C code leaves unassigned here, and assigns before it reads them, hold
  a placeholder.
\<close>

definition sps_init :: "scp_instance \<Rightarrow> real list \<Rightarrow> sps_state" where
  "sps_init inst junk =
     (case init_dual_vector inst of
        (dual, rc, obj) \<Rightarrow>
          (case compute_subg_vector_sps inst rc of
             (g, ret) \<Rightarrow>
               \<lparr> dual1 = dual, dual2 = junk, curr_dual = Dual1, old_dual = Dual1,
                 best_dual = Dual2, reduced_costs = rc, curr_obj = obj, best_obj = obj,
                 momentum = replicate (num_row inst) 0, dd = [], subg1 = g,
                 subg2 = replicate (num_row inst) 0, worst_obj = obj,
                 past_objs = (replicate M None)[0 := Some obj], worst_obj_idx = 0,
                 sub_obj = 0, product = 0, alpha = 0, eta_not = Fin 0, tau = 0, accept = NaN,
                 is_opt = (ret \<noteq> 0) \<rparr>))"

text \<open>
  \<open>eta_not\<close>, the square root of the sum of the \<open>int\<close> products \<open>subg1[i] * subg1[i]\<close>, each
  converted to double when it is added, and the first \<open>alpha\<close>.
\<close>

definition sps_start :: "sps_state \<Rightarrow> sps_state" where
  "sps_start s =
     s\<lparr>eta_not := ieee_sqrt (fold (\<lambda>v e. e + real_of_int (int_mult v v)) (subg1 s) 0),
       alpha := 1 / 10\<rparr>"

text \<open>
  The label \<open>cleanup\<close>: the result is the returned objective and the content of
  \<open>best_dual_copy\<close>.
\<close>

definition sps_cleanup :: "sps_state \<Rightarrow> real \<times> real list" where
  "sps_cleanup s =
     (let s = (if is_opt s then s\<lparr>best_dual := curr_dual s, best_obj := curr_obj s\<rparr> else s)
      in (best_obj s, buf s (best_dual s)))"

definition sps_final :: "scp_instance \<Rightarrow> int \<Rightarrow> real list \<Rightarrow> fault + sps_state" where
  "sps_final inst max_itr junk =
     (let s = sps_init inst junk in
      if is_opt s then Inr s else sps_loop inst (nat max_itr) 0 (sps_start s))"

definition spectral_projected_subgradient ::
  "scp_instance \<Rightarrow> int \<Rightarrow> real list \<Rightarrow> fault + real \<times> real list" where
  "spectral_projected_subgradient inst max_itr junk =
     (case sps_final inst max_itr junk of Inl e \<Rightarrow> Inl e | Inr s \<Rightarrow> Inr (sps_cleanup s))"

text \<open>
  The state at the head of the main loop when \<open>itr = n\<close>, if the run gets there: \<open>None\<close>
  when the run has stopped before, by optimality or by a fault.
\<close>

fun sps_head :: "scp_instance \<Rightarrow> real list \<Rightarrow> nat \<Rightarrow> sps_state option" where
  "sps_head inst junk 0 =
     (let s = sps_init inst junk in if is_opt s then None else Some (sps_start s))"
| "sps_head inst junk (Suc n) =
     (case sps_head inst junk n of
        None \<Rightarrow> None
      | Some s \<Rightarrow>
          (case sps_iteration inst n s of
             Inl e \<Rightarrow> None
           | Inr s' \<Rightarrow> if is_opt s' then None else Some s'))"

section \<open>The basic subgradient driver\<close>

record basic_state = dual_state +
  subg :: "int list"
  nrm :: int
  lambda :: real
  counter :: int

definition counter_limit :: int where
  "counter_limit = 10"

text \<open>
  The body of the loop over the rows: the step, the projection of a negative component to
  zero with the correction of \<open>value\<close>, the propagation to the reduced costs when \<open>value\<close>
  is outside the tolerance, and the accumulation of the objective.
\<close>

definition basic_row :: "scp_instance \<Rightarrow> real \<Rightarrow> nat \<Rightarrow> basic_state \<Rightarrow> basic_state" where
  "basic_row inst step_size i s =
     (let value = step_size * real_of_int (subg s ! i);
          s = store (curr_dual s) i (buf s (old_dual s) ! i + value) s;
          c = buf s (curr_dual s) ! i;
          value = (if c < 0 then value - c else value);
          s = (if c < 0 then store (curr_dual s) i 0 s else s);
          s = (if value < - ZERO_TOL \<or> ZERO_TOL < value then
                 s\<lparr>reduced_costs := subtract_from_cols inst i value (reduced_costs s)\<rparr>
               else s)
      in s\<lparr>curr_obj := curr_obj s + buf s (curr_dual s) ! i\<rparr>)"

text \<open>The update of the dual vector and of the objective (after the \<open>break\<close> test).\<close>

definition basic_update :: "scp_instance \<Rightarrow> int \<Rightarrow> basic_state \<Rightarrow> basic_state" where
  "basic_update inst upperbound s =
     (let step_size =
            lambda s * (105 / 100 * real_of_int upperbound - curr_obj s) / real_of_int (nrm s);
          s = s\<lparr>curr_obj := 0\<rparr>;
          s = fold (basic_row inst step_size) [0..<num_row inst] s
      in s\<lparr>curr_obj := add_negative (reduced_costs s) (curr_obj s)\<rparr>)"

definition basic_best :: "basic_state \<Rightarrow> basic_state" where
  "basic_best s =
     (let s = (if best_obj s < curr_obj s then
                 s\<lparr>best_obj := curr_obj s, counter := 0, old_dual := curr_dual s,
                   curr_dual := best_dual s, best_dual := curr_dual s\<rparr>
               else s\<lparr>counter := counter s + 1, old_dual := curr_dual s\<rparr>)
      in if counter_limit < counter s then s\<lparr>lambda := lambda s * (1 / 2), counter := 0\<rparr>
         else s)"

text \<open>One pass through the body of the main loop; \<open>nrm\<close> is negative at the \<open>break\<close>.\<close>

definition basic_iteration :: "scp_instance \<Rightarrow> int \<Rightarrow> basic_state \<Rightarrow> basic_state" where
  "basic_iteration inst upperbound s =
     (case compute_subg_vector_basic inst (reduced_costs s) (buf s (old_dual s)) of
        (g, n) \<Rightarrow>
          let s = s\<lparr>subg := g, nrm := n\<rparr> in
          if n < 0 then s else basic_best (basic_update inst upperbound s))"

fun basic_loop :: "scp_instance \<Rightarrow> int \<Rightarrow> nat \<Rightarrow> basic_state \<Rightarrow> basic_state" where
  "basic_loop inst upperbound 0 s = s"
| "basic_loop inst upperbound (Suc n) s =
     (let s' = basic_iteration inst upperbound s in
      if nrm s' < 0 then s' else basic_loop inst upperbound n s')"

definition basic_init :: "scp_instance \<Rightarrow> real list \<Rightarrow> basic_state" where
  "basic_init inst junk =
     (case init_dual_vector inst of
        (dual, rc, obj) \<Rightarrow>
          \<lparr> dual1 = dual, dual2 = junk, curr_dual = Dual1, old_dual = Dual1,
            best_dual = Dual2, reduced_costs = rc, curr_obj = obj, best_obj = obj,
            subg = replicate (num_row inst) 0, nrm = 0, lambda = 2, counter = 0 \<rparr>)"

definition basic_cleanup :: "basic_state \<Rightarrow> real \<times> real list" where
  "basic_cleanup s =
     (let s = (if nrm s < 0 then s\<lparr>best_dual := curr_dual s, best_obj := curr_obj s\<rparr> else s)
      in (best_obj s, buf s (best_dual s)))"

definition basic_final :: "scp_instance \<Rightarrow> int \<Rightarrow> int \<Rightarrow> real list \<Rightarrow> basic_state" where
  "basic_final inst max_itr upperbound junk =
     basic_loop inst upperbound (nat max_itr) (basic_init inst junk)"

definition basic_subgradient :: "scp_instance \<Rightarrow> int \<Rightarrow> int \<Rightarrow> real list \<Rightarrow> real \<times> real list" where
  "basic_subgradient inst max_itr upperbound junk =
     basic_cleanup (basic_final inst max_itr upperbound junk)"

text \<open>The state at the head of the main loop when \<open>itr = n\<close>, if the run gets there.\<close>

fun basic_head :: "scp_instance \<Rightarrow> int \<Rightarrow> real list \<Rightarrow> nat \<Rightarrow> basic_state option" where
  "basic_head inst upperbound junk 0 = Some (basic_init inst junk)"
| "basic_head inst upperbound junk (Suc n) =
     (case basic_head inst upperbound junk n of
        None \<Rightarrow> None
      | Some s \<Rightarrow>
          (let s' = basic_iteration inst upperbound s in
           if nrm s' < 0 then None else Some s'))"

section \<open>Properties of the states\<close>

text \<open>
  The reduced-cost vector agrees with the definition from scratch for a dual vector, and a
  dual vector is non-negative on the rows of the instance.
\<close>

definition consistent :: "scp_instance \<Rightarrow> real list \<Rightarrow> real list \<Rightarrow> bool" where
  "consistent inst d rc \<longleftrightarrow>
     length rc = num_col inst \<and> (\<forall>c<num_col inst. rc ! c = reduced_cost_spec inst d c)"

definition nonneg :: "scp_instance \<Rightarrow> real list \<Rightarrow> bool" where
  "nonneg inst d \<longleftrightarrow> length d = num_row inst \<and> (\<forall>r<num_row inst. 0 \<le> d ! r)"

text \<open>
  What the body of the row loop of the spectral driver computes for row \<open>i\<close>: the new
  momentum, the change of the dual after the clip at zero, and whether the change is
  outside the tolerance.
\<close>

definition new_momentum :: "sps_state \<Rightarrow> int list \<Rightarrow> nat \<Rightarrow> real" where
  "new_momentum s g i = alpha s * real_of_int (g ! i) + mu * (momentum s ! i)"

definition step_value :: "sps_state \<Rightarrow> int list \<Rightarrow> nat \<Rightarrow> real" where
  "step_value s g i =
     (let old = buf s (old_dual s) ! i; value = old + new_momentum s g i
      in (if value < 0 then 0 else value) - old)"

definition outside_tol :: "real \<Rightarrow> bool" where
  "outside_tol value \<longleftrightarrow> value < - ZERO_TOL \<or> ZERO_TOL < value"

text \<open>
  The invariant of the row loop of the spectral driver when rows below \<open>i\<close> are done:
  \<open>od\<close> is the dual vector the iteration started from. The two pointers may name the same
  buffer, so the old vector is only required to be still in place on the rows not yet done.
\<close>

definition mixed :: "nat \<Rightarrow> real list \<Rightarrow> real list \<Rightarrow> real list" where
  "mixed i c od = map (\<lambda>r. if r < i then c ! r else od ! r) [0..<length od]"

definition row_inv :: "scp_instance \<Rightarrow> real list \<Rightarrow> nat \<Rightarrow> sps_state \<Rightarrow> bool" where
  "row_inv inst od i s \<longleftrightarrow>
     length (dual1 s) = num_row inst \<and> length (dual2 s) = num_row inst \<and>
     length (momentum s) = num_row inst \<and> length od = num_row inst \<and>
     (\<forall>r<num_row inst. i \<le> r \<longrightarrow> buf s (old_dual s) ! r = od ! r) \<and>
     (\<forall>r<i. 0 \<le> buf s (curr_dual s) ! r) \<and>
     consistent inst (mixed i (buf s (curr_dual s)) od) (reduced_costs s) \<and>
     sub_obj s = (\<Sum>r\<leftarrow>[0..<i]. buf s (curr_dual s) ! r) \<and>
     distinct (map fst (dd s)) \<and>
     (\<forall>p\<in>set (dd s). fst p < i \<and> outside_tol (snd p) \<and>
        0 \<le> buf s (curr_dual s) ! fst p - snd p \<and> 0 < snd p * momentum s ! fst p) \<and>
     product s = (\<Sum>p\<leftarrow>dd s. snd p * momentum s ! fst p)"

text \<open>
  What holds wherever the spectral driver evaluates the objective (after the tentative
  step and after every pass of the line search), and what holds at the head of its main
  loop.
\<close>

definition sps_eval_inv :: "scp_instance \<Rightarrow> sps_state \<Rightarrow> bool" where
  "sps_eval_inv inst s \<longleftrightarrow>
     length (dual1 s) = num_row inst \<and> length (dual2 s) = num_row inst \<and>
     length (momentum s) = num_row inst \<and>
     nonneg inst (buf s (curr_dual s)) \<and>
     consistent inst (buf s (curr_dual s)) (reduced_costs s) \<and>
     sub_obj s = sum_list (buf s (curr_dual s)) \<and>
     curr_obj s = objective_spec (buf s (curr_dual s)) (reduced_costs s) \<and>
     distinct (map fst (dd s)) \<and>
     (\<forall>p\<in>set (dd s). fst p < num_row inst \<and> outside_tol (snd p) \<and>
        0 \<le> buf s (curr_dual s) ! fst p - tau s * snd p) \<and>
     0 < tau s \<and> 0 \<le> product s \<and> (dd s \<noteq> [] \<longrightarrow> 0 < product s) \<and>
     0 < alpha s \<and> best_dual s \<noteq> curr_dual s"

definition sps_head_inv :: "scp_instance \<Rightarrow> sps_state \<Rightarrow> bool" where
  "sps_head_inv inst s \<longleftrightarrow>
     length (dual1 s) = num_row inst \<and> length (dual2 s) = num_row inst \<and>
     length (momentum s) = num_row inst \<and>
     nonneg inst (buf s (old_dual s)) \<and>
     consistent inst (buf s (old_dual s)) (reduced_costs s) \<and>
     curr_obj s = objective_spec (buf s (old_dual s)) (reduced_costs s) \<and>
     0 < alpha s \<and> best_dual s \<noteq> curr_dual s \<and> \<not> is_opt s"

text \<open>The variables that the row loop and the line search leave alone.\<close>

definition sps_frame :: "sps_state \<Rightarrow> sps_state \<Rightarrow> bool" where
  "sps_frame s t \<longleftrightarrow>
     curr_dual t = curr_dual s \<and> old_dual t = old_dual s \<and> best_dual t = best_dual s \<and>
     alpha t = alpha s \<and> subg1 t = subg1 s \<and> subg2 t = subg2 s \<and> best_obj t = best_obj s \<and>
     worst_obj t = worst_obj s \<and> past_objs t = past_objs s \<and>
     worst_obj_idx t = worst_obj_idx s \<and> eta_not t = eta_not s \<and> is_opt t = is_opt s"

text \<open>The part of the evaluation invariant that concerns the dual vector alone.\<close>

definition dual_ok :: "scp_instance \<Rightarrow> sps_state \<Rightarrow> bool" where
  "dual_ok inst s \<longleftrightarrow>
     length (dual1 s) = num_row inst \<and> length (dual2 s) = num_row inst \<and>
     nonneg inst (buf s (curr_dual s)) \<and>
     consistent inst (buf s (curr_dual s)) (reduced_costs s) \<and>
     sub_obj s = sum_list (buf s (curr_dual s))"

definition after_search :: "scp_instance \<Rightarrow> sps_state \<Rightarrow> bool" where
  "after_search inst s \<longleftrightarrow>
     length (dual1 s) = num_row inst \<and> length (dual2 s) = num_row inst \<and>
     length (momentum s) = num_row inst \<and>
     nonneg inst (buf s (old_dual s)) \<and>
     consistent inst (buf s (old_dual s)) (reduced_costs s) \<and>
     curr_obj s = objective_spec (buf s (old_dual s)) (reduced_costs s) \<and>
     0 < tau s \<and> (\<forall>p\<in>set (dd s). outside_tol (snd p)) \<and>
     best_dual s \<noteq> curr_dual s"

text \<open>
  What the body of the row loop of the basic driver stores in row \<open>i\<close>, and the final
  \<open>value\<close> that it propagates when it is outside the tolerance.
\<close>

definition basic_new :: "basic_state \<Rightarrow> real \<Rightarrow> nat \<Rightarrow> real" where
  "basic_new s step_size i =
     (let c = buf s (old_dual s) ! i + step_size * real_of_int (subg s ! i)
      in if c < 0 then 0 else c)"

definition basic_value :: "basic_state \<Rightarrow> real \<Rightarrow> nat \<Rightarrow> real" where
  "basic_value s step_size i =
     (let value = step_size * real_of_int (subg s ! i); c = buf s (old_dual s) ! i + value
      in if c < 0 then value - c else value)"

definition brow_inv :: "scp_instance \<Rightarrow> nat \<Rightarrow> basic_state \<Rightarrow> bool" where
  "brow_inv inst i s \<longleftrightarrow>
     length (dual1 s) = num_row inst \<and> length (dual2 s) = num_row inst \<and>
     (\<forall>r<i. 0 \<le> buf s (curr_dual s) ! r)"

definition basic_head_inv :: "scp_instance \<Rightarrow> basic_state \<Rightarrow> bool" where
  "basic_head_inv inst s \<longleftrightarrow>
     length (dual1 s) = num_row inst \<and> length (dual2 s) = num_row inst \<and>
     nonneg inst (buf s (old_dual s))"

text \<open>
  Two instances on which a driver finds the optimum in an iteration that improves the best
  objective. \<open>sps_ex\<close>: rows 0 and 1 are covered by column 0 (cost 3) and column 1 (cost 7),
  rows 2, 3 and 4 by column 1 and column 2 (cost 3). \<open>basic_ex\<close>: row 0 is covered by
  column 1 (cost 18) and column 2 (cost 10), row 1 by column 0 (cost 1) and column 1.
\<close>

definition sps_ex :: scp_instance where
  "sps_ex = \<lparr> num_col = 3, num_row = 5, costs = [3, 7, 3],
              col_wise_a = [0, 1, 0, 1, 2, 3, 4, 2, 3, 4], col_wise_idx = [0, 2, 7, 10],
              row_wise_a = [0, 1, 0, 1, 1, 2, 1, 2, 1, 2], row_wise_idx = [0, 2, 4, 6, 8, 10],
              col_sizes = [2, 5, 3], row_sizes = [2, 2, 2, 2, 2] \<rparr>"

definition basic_ex :: scp_instance where
  "basic_ex = \<lparr> num_col = 3, num_row = 2, costs = [1, 18, 10],
                col_wise_a = [1, 0, 1, 0], col_wise_idx = [0, 1, 3, 4],
                row_wise_a = [1, 2, 0, 1], row_wise_idx = [0, 2, 4],
                col_sizes = [1, 2, 1], row_sizes = [2, 2] \<rparr>"

text \<open>The state of the spectral driver on \<open>sps_ex\<close> after the initialisation.\<close>

definition sps_ex_init :: "real list \<Rightarrow> sps_state" where
  "sps_ex_init junk =
     \<lparr> dual1 = [7 / 5, 7 / 5, 1, 1, 1], dual2 = junk, curr_dual = Dual1, old_dual = Dual1,
       best_dual = Dual2, reduced_costs = [1 / 5, 6 / 5, 0], curr_obj = 29 / 5,
       best_obj = 29 / 5, momentum = [0, 0, 0, 0, 0], dd = [], subg1 = [1, 1, 0, 0, 0],
       subg2 = [0, 0, 0, 0, 0], worst_obj = 29 / 5,
       past_objs = [Some (29 / 5), None, None, None, None, None, None, None, None, None],
       worst_obj_idx = 0, sub_obj = 0, product = 0, alpha = 0, eta_not = Fin 0, tau = 0,
       accept = NaN, is_opt = False \<rparr>"

text \<open>
  The state in which the spectral driver leaves its loop on \<open>sps_ex\<close>; \<open>e\<close> stands for
  \<open>eta_not\<close>.
\<close>

definition sps_ex_final :: "real \<Rightarrow> real list \<Rightarrow> sps_state" where
  "sps_ex_final e junk =
     \<lparr> dual1 = [3 / 2, 3 / 2, 1, 1, 1], dual2 = junk, curr_dual = Dual2, old_dual = Dual1,
       best_dual = Dual1, reduced_costs = [0, 1, 0], curr_obj = 6,
       best_obj = 6, momentum = [1 / 10, 1 / 10, 0, 0, 0], dd = [(0, 1 / 10), (1, 1 / 10)],
       subg1 = [1, 1, 0, 0, 0], subg2 = [0, 0, 0, 0, 0], worst_obj = 29 / 5,
       past_objs = [Some (29 / 5), None, None, None, None, None, None, None, None, None],
       worst_obj_idx = 0, sub_obj = 6, product = 1 / 5, alpha = 1 / 10, eta_not = Fin e,
       tau = 1, accept = MInf, is_opt = True \<rparr>"

text \<open>The state in which the basic driver leaves its loop on \<open>basic_ex\<close>.\<close>

definition basic_ex_final :: "real list \<Rightarrow> basic_state" where
  "basic_ex_final junk =
     \<lparr> dual1 = [121 / 10, 1], dual2 = junk, curr_dual = Dual2, old_dual = Dual1,
       best_dual = Dual1, reduced_costs = [0, 49 / 10, - (21 / 10)], curr_obj = 11,
       best_obj = 11, subg = [0, 0], nrm = - 1, lambda = 2, counter = 0 \<rparr>"

section \<open>The window of recent objective values\<close>

text \<open>
  The window in the words of the specification: the last \<open>M\<close> values of the history of
  accepted objective values (all of them while there are fewer), most recent first. The
  invariant of the ring buffer for a history \<open>h\<close>: the last \<open>M\<close> values sit in their
  slots, the slots beyond the history are unwritten, and \<open>worst_obj_idx\<close> names a slot that
  holds \<open>worst_obj\<close>, the minimum of the window.
\<close>

definition window_of :: "real list \<Rightarrow> real list" where
  "window_of h = take M (rev h)"

definition window_inv :: "real list \<Rightarrow> real option list \<times> real \<times> nat \<Rightarrow> bool" where
  "window_inv h = (\<lambda>(past, worst, idx).
     length past = M \<and>
     (\<forall>j<M. (past ! j = None) = (length h \<le> j)) \<and>
     (\<forall>t<length h. length h - t \<le> M \<longrightarrow> past ! (t mod M) = Some (h ! t)) \<and>
     (\<forall>j<M. \<forall>x. past ! j = Some x \<longrightarrow>
        (\<exists>t<length h. length h - t \<le> M \<and> t mod M = j \<and> h ! t = x)) \<and>
     idx < M \<and> past ! idx = Some worst \<and> worst = Min (set (window_of h)))"

text \<open>The body of the rescan loop.\<close>

definition rescan_step ::
  "real option list \<Rightarrow> nat \<Rightarrow> (real \<times> nat) option \<Rightarrow> (real \<times> nat) option" where
  "rescan_step past j st =
     (case st of
        None \<Rightarrow> None
      | Some (w, idx) \<Rightarrow>
          (case past ! j of
             None \<Rightarrow> None
           | Some v \<Rightarrow> if v < w then Some (v, j) else Some (w, idx)))"

text \<open>
  The history of a run of the spectral driver up to the head of iteration \<open>n\<close>: the
  initial objective and the objective accepted by each iteration so far.
\<close>

definition head_obj :: "scp_instance \<Rightarrow> real list \<Rightarrow> nat \<Rightarrow> real" where
  "head_obj inst junk k = (case sps_head inst junk k of Some s \<Rightarrow> curr_obj s | None \<Rightarrow> 0)"

definition sps_objs :: "scp_instance \<Rightarrow> real list \<Rightarrow> nat \<Rightarrow> real list" where
  "sps_objs inst junk n = map (head_obj inst junk) [0..<Suc n]"

definition window_fields :: "sps_state \<Rightarrow> real option list \<times> real \<times> nat" where
  "window_fields s = (past_objs s, worst_obj s, worst_obj_idx s)"

section \<open>Loading an instance\<close>

text \<open>
  \<open>load_scp_instance\<close> reads the file with the C library: \<open>getline\<close> yields the next line
  with its newline, \<open>strtok\<close> with the delimiter \<open>" "\<close> the next maximal run of characters
  other than a space together with the position after it, and \<open>atoi\<close>, which is
  \<open>(int) strtol(s, NULL, 10)\<close>, the value of an optional sign and the decimal digits that
  follow optional white space (0 when there is no digit), kept within the range of \<open>long\<close>
  by \<open>strtol\<close> and then cut to the 32 bits of an \<open>int\<close>. The file is its sequence of
  characters.
\<close>

definition newline :: char where
  "newline = CHR 0x0A"

definition getline :: "string \<Rightarrow> (string \<times> string) option" where
  "getline f =
     (if f = [] then None
      else (let r = dropWhile (\<lambda>c. c \<noteq> newline) f in
            Some (takeWhile (\<lambda>c. c \<noteq> newline) f @ take 1 r, drop 1 r)))"

definition strtok :: "string \<Rightarrow> (string \<times> string) option" where
  "strtok s =
     (let s' = dropWhile (\<lambda>c. c = CHR '' '') s in
      if s' = [] then None
      else Some (takeWhile (\<lambda>c. c \<noteq> CHR '' '') s',
                 drop 1 (dropWhile (\<lambda>c. c \<noteq> CHR '' '') s')))"

definition isspace :: "char \<Rightarrow> bool" where
  "isspace c \<longleftrightarrow> c \<in> set [CHR '' '', CHR 0x09, CHR 0x0A, CHR 0x0B, CHR 0x0C, CHR 0x0D]"

definition isdigit :: "char \<Rightarrow> bool" where
  "isdigit c \<longleftrightarrow> c \<in> set ''0123456789''"

fun digits :: "string \<Rightarrow> int \<Rightarrow> int" where
  "digits [] acc = acc"
| "digits (c # cs) acc =
     (if isdigit c then digits cs (10 * acc + (int (of_char c) - 48)) else acc)"

definition strtol :: "string \<Rightarrow> int" where
  "strtol s =
     (let v = (case dropWhile isspace s of
                 [] \<Rightarrow> 0
               | c # cs \<Rightarrow>
                   if c = CHR ''-'' then - digits cs 0
                   else if c = CHR ''+'' then digits cs 0
                   else digits (c # cs) 0)
      in max (- (2 ^ 63)) (min (2 ^ 63 - 1) v))"

definition atoi :: "string \<Rightarrow> int" where
  "atoi s = wrap_int (strtol s)"

text \<open>
  The three ways a call can end: the return value \<open>-1\<close>, a write outside an allocated
  array (after which C defines nothing), and the return value 0 with the result.
\<close>

datatype 'a outcome = Failure | Undefined | Ok 'a

text \<open>
  \<open>malloc(n * sizeof ...)\<close> for an \<open>int n\<close>: a negative \<open>n\<close> converts to a size above
  every object size and the allocation fails; \<open>malloc(0)\<close> may return a null pointer or
  not, which the parameter \<open>malloc0\<close> decides; running out of memory for a positive
  \<open>n\<close> is not modelled.
\<close>

definition alloc :: "bool \<Rightarrow> int \<Rightarrow> bool" where
  "alloc malloc0 n \<longleftrightarrow> 0 < n \<or> (n = 0 \<and> malloc0)"

text \<open>
  \<open>GETLINE(line, buf_size, fp)\<close> followed by \<open>STR_TOKEN(token, buf, " ")\<close>: the token, the
  position of \<open>strtok\<close> and the rest of the file, or \<open>None\<close> where either macro returns
  \<open>-1\<close>. The line is read by \<open>strtok\<close> as a C string, which ends at its first NUL
  character.
\<close>

definition c_string :: "string \<Rightarrow> string" where
  "c_string s = takeWhile (\<lambda>c. c \<noteq> CHR 0x00) s"

definition first_token :: "string \<Rightarrow> (string \<times> string \<times> string) option" where
  "first_token f =
     (case getline f of
        None \<Rightarrow> None
      | Some (line, f') \<Rightarrow>
          (case strtok (c_string line) of
             None \<Rightarrow> None
           | Some (t, save) \<Rightarrow> Some (t, save, f')))"

text \<open>
  The head of a pass of the two token loops, \<open>if (token == NULL) { GETLINE ...; STR_TOKEN ... }\<close>,
  and their step \<open>token = strtok(NULL, " ")\<close>.
\<close>

definition fetch :: "string option \<Rightarrow> string \<Rightarrow> string \<Rightarrow> (string \<times> string \<times> string) option" where
  "fetch token save f = (case token of None \<Rightarrow> first_token f | Some t \<Rightarrow> Some (t, save, f))"

definition advance :: "string \<Rightarrow> string option \<times> string" where
  "advance save = (case strtok save of None \<Rightarrow> (None, []) | Some (t, save') \<Rightarrow> (Some t, save'))"

text \<open>
  What is left to read: twice the characters of the file, the characters after the
  position of \<open>strtok\<close>, and one for a pending token.
\<close>

definition left :: "string option \<Rightarrow> string \<Rightarrow> string \<Rightarrow> nat" where
  "left token save f = 2 * length f + length save + (case token of None \<Rightarrow> 0 | Some t \<Rightarrow> 1)"

text \<open>
  The two token loops of the loader have one shape,
  \<open>for (...; cond; token = strtok(NULL, " ")) { if (token == NULL) { GETLINE ...; STR_TOKEN ... }
  if (*token != '\n') { body } }\<close>, where the body may return \<open>-1\<close> or write out of
  bounds. The loop ends because every pass moves \<open>strtok\<close> forward in the line or takes
  a line from the file. It leaves the state of its variables, the pending token, the
  position of \<open>strtok\<close> and the rest of the file.
\<close>

function token_loop ::
  "('s \<Rightarrow> bool) \<Rightarrow> (string \<Rightarrow> 's \<Rightarrow> 's outcome) \<Rightarrow> string option \<Rightarrow> string \<Rightarrow> string \<Rightarrow> 's \<Rightarrow>
   ('s \<times> string option \<times> string \<times> string) outcome" where
  "token_loop cond body token save f st =
     (if cond st then
        (case fetch token save f of
           None \<Rightarrow> Failure
         | Some (t, save', f') \<Rightarrow>
             (case (if hd t \<noteq> newline then body t st else Ok st) of
                Failure \<Rightarrow> Failure
              | Undefined \<Rightarrow> Undefined
              | Ok st' \<Rightarrow>
                  (case advance save' of
                     (token', save'') \<Rightarrow> token_loop cond body token' save'' f' st')))
      else Ok (st, token, save, f))"
  by pat_completeness auto

termination
proof -
  have strtok_shorter: "length r < length s" if a: "strtok s = Some (t, r)" for s t r
  proof -
    define s' where "s' = dropWhile (\<lambda>c. c = CHR '' '') s"
    from a have ne: "s' \<noteq> []" and r: "r = drop 1 (dropWhile (\<lambda>c. c \<noteq> CHR '' '') s')"
      by (auto simp: strtok_def s'_def Let_def split: if_splits)
    from ne obtain c cs where c: "s' = c # cs" by (cases s') auto
    then have "c \<noteq> CHR '' ''" using hd_dropWhile [of "\<lambda>c. c = CHR '' ''" s] by (simp add: s'_def)
    then have "dropWhile (\<lambda>c. c \<noteq> CHR '' '') s' = dropWhile (\<lambda>c. c \<noteq> CHR '' '') cs"
      by (simp add: c)
    then have "length r \<le> length cs" using length_dropWhile_le [of "\<lambda>c. c \<noteq> CHR '' ''" cs]
      by (simp add: r)
    moreover have "length s' \<le> length s" by (simp add: s'_def length_dropWhile_le)
    ultimately show ?thesis by (simp add: c)
  qed
  have getline_shorter: "length line + length f' = length f"
    if a: "getline f = Some (line, f')" for f line f'
  proof -
    define r where "r = dropWhile (\<lambda>c. c \<noteq> newline) f"
    from a have b: "line = takeWhile (\<lambda>c. c \<noteq> newline) f @ take 1 r" and f': "f' = drop 1 r"
      by (auto simp: getline_def r_def Let_def split: if_splits)
    have "length (takeWhile (\<lambda>c. c \<noteq> newline) f) + length r = length f"
      unfolding r_def by (metis length_append takeWhile_dropWhile_id)
    moreover have "length (take 1 r) + length (drop 1 r) = length r"
      by (metis append_take_drop_id length_append)
    ultimately show ?thesis by (simp add: b f')
  qed
  have fetch_advance_left: "left token' save'' f' < left token save f"
    if fe: "fetch token save f = Some (t, save', f')" and ad: "advance save' = (token', save'')"
    for token save f t save' f' token' save''
  proof -
    have adv: "length save'' + (case token' of None \<Rightarrow> 0 | Some t \<Rightarrow> 1) \<le> length save'"
      using ad strtok_shorter [of save']
      by (auto simp: advance_def split: option.splits)
    show ?thesis
    proof (cases token)
      case None
      with fe obtain line where g: "getline f = Some (line, f')"
        and s: "strtok (c_string line) = Some (t, save')"
        by (auto simp: fetch_def first_token_def split: option.splits)
      have "length (c_string line) \<le> length line"
        by (simp add: c_string_def length_takeWhile_le)
      with getline_shorter [OF g] strtok_shorter [OF s] adv show ?thesis
        by (simp add: left_def None)
    next
      case (Some u)
      with fe have "save' = save" "f' = f" by (simp_all add: fetch_def)
      with adv show ?thesis by (simp add: left_def Some)
    qed
  qed
  show ?thesis
    by (relation "measure (\<lambda>(cond, body, token, save, f, st). left token save f)")
      (auto simp: fetch_advance_left)
qed

text \<open>
  The cost loop: \<open>i\<close> is the number of costs stored, the body is \<open>costs[i++] = atoi(token)\<close>.
\<close>

definition read_costs ::
  "int \<Rightarrow> string \<Rightarrow> (int list \<times> string option \<times> string \<times> string) outcome" where
  "read_costs n f =
     token_loop (\<lambda>cs. int (length cs) < n) (\<lambda>t cs. Ok (cs @ [atoi t])) None [] f []"

text \<open>
  The temporary matrix while the rows are read: \<open>cols[c]\<close> holds the \<open>col_sizes[c]\<close> rows
  stored for column \<open>c\<close>, in an array of \<open>num_row\<close> entries, and \<open>rows[i]\<close>, in an array of
  \<open>num_col\<close> entries, the \<open>j\<close> columns stored for the row being read. The body of the
  inner loop computes \<open>col_idx = atoi(token) - 1\<close> in \<open>int\<close>, returns \<open>-1\<close> when it is
  negative, appends the row to the column, which writes out of bounds when the index is
  above \<open>num_col\<close> or the column is full, and appends the column to the row, which writes
  out of bounds when the row is full.
\<close>

definition store_entry ::
  "int \<Rightarrow> int \<Rightarrow> nat \<Rightarrow> string \<Rightarrow> nat list list \<times> nat list \<Rightarrow> (nat list list \<times> nat list) outcome" where
  "store_entry nr nc i t = (\<lambda>(cols, row).
     let col_idx = wrap_int (atoi t - 1) in
     if col_idx < 0 then Failure
     else if nc \<le> col_idx \<or> nr \<le> int (length (cols ! nat col_idx)) then Undefined
     else if nc \<le> int (length row) then Undefined
     else Ok (cols[nat col_idx := cols ! nat col_idx @ [i]], row @ [nat col_idx]))"

definition read_entries ::
  "int \<Rightarrow> int \<Rightarrow> nat \<Rightarrow> int \<Rightarrow> string \<Rightarrow> nat list list \<Rightarrow>
   ((nat list list \<times> nat list) \<times> string option \<times> string \<times> string) outcome" where
  "read_entries nr nc i n f cols =
     token_loop (\<lambda>(cols, row). int (length row) < n) (store_entry nr nc i) None [] f (cols, [])"

text \<open>
  The loop over the rows: the first token of the next line is the number of entries of
  the row; the entries are read from the lines after it. The loop leaves the temporary
  matrix, the declared sizes and the rest of the file.
\<close>

fun read_rows ::
  "int \<Rightarrow> int \<Rightarrow> nat list \<Rightarrow> string \<Rightarrow> nat list list \<times> nat list list \<times> int list \<Rightarrow>
   ((nat list list \<times> nat list list \<times> int list) \<times> string) outcome" where
  "read_rows nr nc [] f st = Ok (st, f)"
| "read_rows nr nc (i # is) f (cols, rows, sizes) =
     (case first_token f of
        None \<Rightarrow> Failure
      | Some (t, save, f') \<Rightarrow>
          (case read_entries nr nc i (atoi t) f' cols of
             Failure \<Rightarrow> Failure
           | Undefined \<Rightarrow> Undefined
           | Ok ((cols', row), token, save', f'') \<Rightarrow>
               read_rows nr nc is f'' (cols', rows @ [row], sizes @ [atoi t])))"

text \<open>
  The compressed form of a temporary matrix: the lines one after the other, the start
  index \<open>k\<close> of every line and the final \<open>k\<close>.
\<close>

definition compress :: "nat list list \<Rightarrow> nat list \<times> nat list" where
  "compress xss =
     (case fold (\<lambda>xs (a, idx). (a @ xs, idx @ [length a])) xss ([], []) of
        (a, idx) \<Rightarrow> (a, idx @ [length a]))"

text \<open>
  \<open>load_scp_instance\<close> on the content of the file (a file that cannot be opened is not
  modelled). The two compressed arrays have \<open>num_nonzero\<close> entries, the sum of the
  declared row sizes as \<open>num_nonzero += row_sizes[i]\<close> adds them up in \<open>int\<close>; copying more
  entries than that writes out of bounds. The two index arrays have \<open>num_col + 1\<close> and
  \<open>num_row + 1\<close> entries, sums of two \<open>int\<close>s as well.
\<close>

definition load_scp_instance :: "bool \<Rightarrow> string \<Rightarrow> scp_instance outcome" where
  "load_scp_instance malloc0 file =
     (case first_token file of
        None \<Rightarrow> Failure
      | Some (t1, save, f1) \<Rightarrow>
          (case strtok save of
             None \<Rightarrow> Failure
           | Some (t2, save') \<Rightarrow>
               (let nr = atoi t1; nc = atoi t2 in
                if \<not> alloc malloc0 nc then Failure
                else
                  (case read_costs nc f1 of
                     Failure \<Rightarrow> Failure
                   | Undefined \<Rightarrow> Undefined
                   | Ok (cs, token, save'', f2) \<Rightarrow>
                       if \<not> alloc malloc0 nr then Failure
                       else
                         (case read_rows nr nc [0..<nat nr] f2 (replicate (nat nc) [], [], []) of
                            Failure \<Rightarrow> Failure
                          | Undefined \<Rightarrow> Undefined
                          | Ok ((cols, rows, sizes), f3) \<Rightarrow>
                              (let num_nonzero = fold (\<lambda>n k. wrap_int (k + n)) sizes 0 in
                               if \<not> alloc malloc0 num_nonzero then Failure
                               else if \<not> alloc malloc0 (wrap_int (nc + 1)) then Failure
                               else if num_nonzero < int (length (concat cols)) then Undefined
                               else if \<not> alloc malloc0 (wrap_int (nr + 1)) then Failure
                               else if num_nonzero < int (length (concat rows)) then Undefined
                               else
                                 Ok \<lparr> num_col = nat nc, num_row = nat nr, costs = cs,
                                      col_wise_a = fst (compress cols),
                                      col_wise_idx = snd (compress cols),
                                      row_wise_a = fst (compress rows),
                                      row_wise_idx = snd (compress rows),
                                      col_sizes = map length cols, row_sizes = sizes \<rparr>))))))"

text \<open>Files for the examples, written line by line.\<close>

definition lines_file :: "string list \<Rightarrow> string" where
  "lines_file ls = concat (map (\<lambda>l. l @ [newline]) ls)"


declare token_loop.simps [simp del]

section \<open>The basic driver on one row and two columns\<close>

text \<open>One row covered by two columns of cost 1.\<close>

definition two_ones :: scp_instance where
  "two_ones = \<lparr> num_col = 2, num_row = 1, costs = [1, 1],
                col_wise_a = [0, 0], col_wise_idx = [0, 1, 2],
                row_wise_a = [0, 1], row_wise_idx = [0, 2],
                col_sizes = [1, 1], row_sizes = [2] \<rparr>"

text \<open>
  One iteration of the basic driver on this instance with upper bound 1, as a function
  of the dual \<open>x\<close> of the row and the step factor \<open>lambda\<close>, while the reduced costs are
  \<open>1 - x\<close> and the objective is \<open>1 - \<bar>x - 1\<bar>\<close>: the subgradient is \<open>-1\<close> when the
  reduced costs are below \<open>pow(10,-14)\<close> and 1 otherwise, its norm is 1, and the new dual
  is projected to zero.
\<close>

definition one_row_step :: "real \<Rightarrow> real \<Rightarrow> real" where
  "one_row_step l x =
     (let g = (if 1 - x < tol14 then - 1 else 1);
          c = x + l * (105 / 100 - (1 - \<bar>x - 1\<bar>)) * g
      in if c < 0 then 0 else c)"

text \<open>
  The state at the head of iteration \<open>n\<close> in such a run: no iterate improves on the
  initial objective 1, so the pointers never move, the counter is \<open>n mod 11\<close> and the step
  factor has been halved \<open>n div 11\<close> times.
\<close>

definition tracks :: "nat \<Rightarrow> basic_state \<Rightarrow> real \<Rightarrow> bool" where
  "tracks n s x \<longleftrightarrow>
     curr_dual s = Dual1 \<and> old_dual s = Dual1 \<and> best_dual s = Dual2 \<and>
     dual1 s = [x] \<and> reduced_costs s = [1 - x, 1 - x] \<and>
     curr_obj s = 1 - \<bar>x - 1\<bar> \<and> best_obj s = 1 \<and>
     lambda s = 2 * (1 / 2) ^ (n div 11) \<and> counter s = int (n mod 11)"

text \<open>The duals of the row in this run, iteration by iteration.\<close>

fun x_seq :: "nat \<Rightarrow> real" where
  "x_seq 0 = 1"
| "x_seq (Suc n) = one_row_step (2 * (1 / 2) ^ (n div 11)) (x_seq n)"

text \<open>One row covered by \<open>k\<close> columns of cost 1.\<close>

definition wide_row :: "nat \<Rightarrow> scp_instance" where
  "wide_row k = \<lparr> num_col = k, num_row = 1, costs = replicate k 1,
                  col_wise_a = replicate k 0, col_wise_idx = [0..<k + 1],
                  row_wise_a = [0..<k], row_wise_idx = [0, k],
                  col_sizes = replicate k 1, row_sizes = [int k] \<rparr>"

text \<open>
  The states of the spectral driver on \<open>two_ones\<close> at the head of its first three
  iterations.
\<close>

definition two_ones_at_0 :: "real list \<Rightarrow> sps_state" where
  "two_ones_at_0 junk =
     \<lparr> dual1 = [1], dual2 = junk, curr_dual = Dual1, old_dual = Dual1,
       best_dual = Dual2, reduced_costs = [0, 0], curr_obj = 1, best_obj = 1,
       momentum = [0], dd = [], subg1 = [- 1], subg2 = [0], worst_obj = 1,
       past_objs = [Some 1, None, None, None, None, None, None, None, None, None],
       worst_obj_idx = 0, sub_obj = 0, product = 0, alpha = 1 / 10, eta_not = Fin 1, tau = 0,
       accept = NaN, is_opt = False \<rparr>"

definition two_ones_at_1 :: "real list \<Rightarrow> sps_state" where
  "two_ones_at_1 junk =
     \<lparr> dual1 = [9 / 10], dual2 = junk, curr_dual = Dual1, old_dual = Dual1,
       best_dual = Dual2, reduced_costs = [1 / 10, 1 / 10], curr_obj = 9 / 10, best_obj = 1,
       momentum = [- (1 / 10)], dd = [(0, - (1 / 10))], subg1 = [- 1], subg2 = [1],
       worst_obj = 9 / 10,
       past_objs = [Some 1, Some (9 / 10), None, None, None, None, None, None, None, None],
       worst_obj_idx = 1, sub_obj = 9 / 10, product = 1 / 10, alpha = 1 / 20,
       eta_not = Fin 1, tau = 1, accept = MInf, is_opt = False \<rparr>"

definition two_ones_at_2 :: "real list \<Rightarrow> sps_state" where
  "two_ones_at_2 junk =
     \<lparr> dual1 = [22 / 25], dual2 = junk, curr_dual = Dual1, old_dual = Dual1,
       best_dual = Dual2, reduced_costs = [3 / 25, 3 / 25], curr_obj = 22 / 25, best_obj = 1,
       momentum = [- (1 / 50)], dd = [(0, - (1 / 50))], subg1 = [1], subg2 = [1],
       worst_obj = 22 / 25,
       past_objs = [Some 1, Some (9 / 10), Some (22 / 25), None, None, None, None, None, None,
         None],
       worst_obj_idx = 2, sub_obj = 22 / 25, product = 1 / 125, alpha = 1 / 10,
       eta_not = Fin 1, tau = 1, accept = Fin (- (62 / 625)), is_opt = False \<rparr>"

section \<open>Facts about the instance\<close>

lemma toy_col_rows:
  "col_rows toy 0 = [0]" "col_rows toy 1 = [0, 1]" "col_rows toy 2 = [1]"
  by (simp_all add: col_rows_def toy_def upt_conv_Cons)

lemma toy_row_cols:
  "row_cols toy 0 = [0, 1]" "row_cols toy 1 = [1, 2]"
  by (simp_all add: row_cols_def toy_def upt_conv_Cons)

lemma upt_3: "[0..<3] = [0, 1, 2]"
  by (simp add: upt_conv_Cons)

lemma upt_2: "[0..<2] = [0, 1]"
  by (simp add: upt_conv_Cons)

lemma toy_counts:
  "num_col toy = 3" "num_row toy = 2" "costs toy = [1, 1, 1]" "col_sizes toy = [1, 2, 1]"
  by (simp_all add: toy_def)

lemma toy_wf: "wf_instance toy"
  by code_simp

lemma toy_valid: "valid_instance toy"
  by code_simp

lemma list_all_upt: "list_all P [0..<n] \<longleftrightarrow> (\<forall>i<n. P i)"
  by (auto simp: list_all_iff)

lemma wf_lengths:
  assumes "wf_instance inst"
  shows "length (costs inst) = num_col inst" "length (col_sizes inst) = num_col inst"
  using assms by (simp_all add: wf_instance_def)

lemma wf_col_rows_bound:
  "wf_instance inst \<Longrightarrow> i < num_col inst \<Longrightarrow> r \<in> set (col_rows inst i) \<Longrightarrow> r < num_row inst"
  by (auto simp: wf_instance_def list_all_upt list_all_iff)

lemma wf_row_cols_bound:
  "wf_instance inst \<Longrightarrow> i < num_row inst \<Longrightarrow> c \<in> set (row_cols inst i) \<Longrightarrow> c < num_col inst"
  by (auto simp: wf_instance_def list_all_upt list_all_iff)

lemma wf_col_sizes:
  "wf_instance inst \<Longrightarrow> i < num_col inst \<Longrightarrow> col_sizes inst ! i = length (col_rows inst i)"
  by (auto simp: wf_instance_def list_all_upt)

lemma wf_transpose:
  "wf_instance inst \<Longrightarrow> i < num_col inst \<Longrightarrow> r < num_row inst \<Longrightarrow>
   count_list (col_rows inst i) r = count_list (row_cols inst r) i"
  by (auto simp: wf_instance_def list_all_upt)

lemma wf_col_in_row:
  assumes "wf_instance inst" "i < num_col inst" "r \<in> set (col_rows inst i)"
  shows "i \<in> set (row_cols inst r)"
proof -
  have r: "r < num_row inst" using assms by (rule wf_col_rows_bound)
  have "count_list (col_rows inst i) r \<noteq> 0" using assms(3) by (simp add: count_list_0_iff)
  then have "count_list (row_cols inst r) i \<noteq> 0" using wf_transpose [OF assms(1,2) r] by simp
  then show ?thesis by (simp add: count_list_0_iff)
qed

lemma wf_row_in_col:
  assumes "wf_instance inst" "r < num_row inst" "c \<in> set (row_cols inst r)"
  shows "r \<in> set (col_rows inst c)"
proof -
  have c: "c < num_col inst" using assms by (rule wf_row_cols_bound)
  have "count_list (row_cols inst r) c \<noteq> 0" using assms(3) by (simp add: count_list_0_iff)
  then have "count_list (col_rows inst c) r \<noteq> 0" using wf_transpose [OF assms(1) c assms(2)] by simp
  then show ?thesis by (simp add: count_list_0_iff)
qed

section \<open>The strict subgradient vector: what it counts and when it signals optimality\<close>

lemma length_decr_rows: "length (decr_rows rs s) = length s"
  unfolding decr_rows_def by (induction rs arbitrary: s) auto

lemma decr_rows_nth:
  "r < length s \<Longrightarrow> decr_rows rs s ! r = s ! r - int (count_list rs r)"
  unfolding decr_rows_def
proof (induction rs arbitrary: s)
  case Nil
  then show ?case by simp
next
  case (Cons a rs)
  then show ?case by (cases "a = r") (auto simp: nth_list_update)
qed

lemma fold_cond_decr_length:
  "length (fold (\<lambda>i sg. if rc ! i < tol14 then decr_rows (col_rows inst i) sg else sg)
     cs s) = length s"
  by (induction cs arbitrary: s) (auto simp: length_decr_rows)

lemma fold_cond_decr_nth:
  "r < length s \<Longrightarrow>
   fold (\<lambda>i sg. if rc ! i < tol14 then decr_rows (col_rows inst i) sg else sg) cs s ! r =
   s ! r - int (\<Sum>i\<leftarrow>cs. if rc ! i < tol14 then count_list (col_rows inst i) r else 0)"
  by (induction cs arbitrary: s) (auto simp: length_decr_rows decr_rows_nth)

lemma length_count_subg: "length (count_subg inst rc) = num_row inst"
  by (simp add: count_subg_def fold_cond_decr_length)

lemma count_subg_nth:
  "r < num_row inst \<Longrightarrow> count_subg inst rc ! r = 1 - int (cover_below inst rc r)"
  by (simp add: count_subg_def cover_below_def fold_cond_decr_nth)

lemma scan_nonzero_cases: "scan_nonzero vs = 0 \<or> scan_nonzero vs = - 1"
  by (induction vs) auto

lemma scan_nonzero_iff: "scan_nonzero vs = - 1 \<longleftrightarrow> (\<forall>i<length vs. vs ! i = 0)"
  by (induction vs) (auto simp: nth_Cons split: nat.splits)

text \<open>
  C1, as stated, fails: on the toy instance with every reduced cost equal to 1 no column is
  below the threshold, so the code leaves every entry at 1, while "1 minus the number of
  incident columns whose reduced cost is at least 1e-14" is \<open>1 - 2\<close> for row 0.
\<close>

theorem subg_sps_at_least_counterexample:
  "fst (compute_subg_vector_sps toy [1, 1, 1]) ! 0 \<noteq> 1 - int (cover_at_least toy [1, 1, 1] 0)"
  by code_simp

text \<open>
  C1, amended: for every well-formed instance and every reduced-cost vector, the strict
  variant produces for each row the entry 1 minus the number of incident columns whose
  reduced cost is below 1e-14 (counted with the multiplicity of the row in the column), and
  it returns the optimal signal \<open>-1\<close> exactly when that vector is identically zero, and
  \<open>0\<close> otherwise.
\<close>

theorem compute_subg_vector_sps_below:
  assumes "wf_instance inst" and "length rcs = num_col inst"
    and "compute_subg_vector_sps inst rcs = (sg, ret)"
  shows "length sg = num_row inst \<and>
         (\<forall>r<num_row inst. sg ! r = 1 - int (cover_below inst rcs r)) \<and>
         (ret = - 1 \<longleftrightarrow> (\<forall>r<num_row inst. sg ! r = 0)) \<and>
         (ret = 0 \<or> ret = - 1)"
proof -
  from assms(3) have s: "sg = count_subg inst rcs" and r: "ret = scan_nonzero sg"
    by (auto simp: compute_subg_vector_sps_def Let_def)
  have len: "length sg = num_row inst"
    by (simp add: s length_count_subg)
  moreover have "\<forall>r<num_row inst. sg ! r = 1 - int (cover_below inst rcs r)"
    by (simp add: s count_subg_nth)
  moreover have "ret = - 1 \<longleftrightarrow> (\<forall>r<num_row inst. sg ! r = 0)"
    using scan_nonzero_iff [of sg] by (simp add: r len)
  moreover have "ret = 0 \<or> ret = - 1"
    using scan_nonzero_cases [of sg] by (simp add: r)
  ultimately show ?thesis by blast
qed

lemma toy_subg_sps_half: "compute_subg_vector_sps toy [1 / 2, 0, 1 / 2] = ([0, 0], - 1)"
  by code_simp

theorem compute_subg_vector_sps_below_witness:
  "wf_instance toy \<and> length [1 / 2, 0, 1 / 2 :: real] = num_col toy \<and>
   compute_subg_vector_sps toy [1 / 2, 0, 1 / 2] = ([0, 0], - 1) \<and>
   [0, 0 :: int] ! 1 = 1 - int (cover_below toy [1 / 2, 0, 1 / 2] 1) \<and>
   cover_below toy [1 / 2, 0, 1 / 2] 1 = 1"
proof -
  have len: "length [1 / 2, 0, 1 / 2 :: real] = num_col toy"
    by (simp add: toy_counts)
  have c: "cover_below toy [1 / 2, 0, 1 / 2] 1 = 1"
    by code_simp
  have "1 < num_row toy"
    by (simp add: toy_counts)
  with compute_subg_vector_sps_below [OF toy_wf len toy_subg_sps_half]
  have "[0, 0 :: int] ! 1 = 1 - int (cover_below toy [1 / 2, 0, 1 / 2] 1)"
    by blast
  with toy_wf len toy_subg_sps_half c show ?thesis
    by blast
qed

section \<open>The sign-aware subgradient vector: clamping, norm and optimality\<close>

lemma two_col_counts: "num_col two_col = 2" "num_row two_col = 1"
  by (simp_all add: two_col_def)

lemma two_col_wf: "wf_instance two_col"
  by code_simp

lemma wrap_int_id: "- (2 ^ 31) \<le> v \<Longrightarrow> v < 2 ^ 31 \<Longrightarrow> wrap_int v = v"
  by (simp add: wrap_int_def)

lemma int_mult_0 [simp]: "int_mult 0 0 = 0"
  by (simp add: int_mult_def wrap_int_def)

lemma int_mult_square:
  assumes "\<bar>a\<bar> \<le> 46340"
  shows "int_mult a a = a * a"
proof -
  have "a * a = \<bar>a\<bar> * \<bar>a\<bar>" by (simp add: abs_if)
  also have "\<dots> \<le> 46340 * 46340" using assms by (intro mult_mono) simp_all
  finally have "a * a < 2 ^ 31" by simp
  moreover have "- (2 ^ 31) \<le> a * a"
  proof -
    have "- (2 ^ 31) \<le> (0 :: int)" by simp
    also have "0 \<le> a * a" by simp
    finally show ?thesis .
  qed
  ultimately have "wrap_int (a * a) = a * a" by (rule wrap_int_id [rotated])
  then show ?thesis by (simp add: int_mult_def)
qed

lemma sum_list_indicator:
  "(\<Sum>i\<leftarrow>[0..<n]. if x = i then 1 else 0) = (if x < n then 1 else (0 :: nat))"
  by (induction n) auto

lemma sum_count_list:
  "\<forall>x\<in>set xs. x < n \<Longrightarrow> (\<Sum>i\<leftarrow>[0..<n]. count_list xs i) = length xs"
proof (induction xs)
  case Nil
  then show ?case by simp
next
  case (Cons x xs)
  have "map (count_list (x # xs)) [0..<n] =
      map (\<lambda>i. count_list xs i + (if x = i then 1 else 0)) [0..<n]"
    by simp
  then have "(\<Sum>i\<leftarrow>[0..<n]. count_list (x # xs) i) =
      (\<Sum>i\<leftarrow>[0..<n]. count_list xs i) + (\<Sum>i\<leftarrow>[0..<n]. if x = i then 1 else 0)"
    by (simp only: sum_list_addf)
  with Cons show ?case by (simp add: sum_list_indicator)
qed

lemma cover_below_le:
  assumes wf: "wf_instance inst" and r: "r < num_row inst"
  shows "cover_below inst rc r \<le> length (row_cols inst r)"
proof -
  have "cover_below inst rc r \<le> (\<Sum>i\<leftarrow>[0..<num_col inst]. count_list (col_rows inst i) r)"
    unfolding cover_below_def by (intro sum_list_mono) simp
  also have "\<dots> = (\<Sum>i\<leftarrow>[0..<num_col inst]. count_list (row_cols inst r) i)"
    using wf r by (intro arg_cong [where f = sum_list] map_cong)
      (simp_all add: wf_instance_def list_all_upt)
  also have "\<dots> = length (row_cols inst r)"
    using wf r by (intro sum_count_list) (simp add: wf_instance_def list_all_upt list_all_iff)
  finally show ?thesis .
qed

lemma clamped_small:
  assumes wf: "wf_instance inst" and nr: "narrow_rows inst" and r: "r < num_row inst"
  shows "\<bar>clamped du (count_subg inst rc) r\<bar> \<le> 46340"
proof -
  have "length (row_cols inst r) \<le> 46341"
    using nr r by (simp add: narrow_rows_def list_all_upt)
  with cover_below_le [OF wf r, of rc] have "cover_below inst rc r \<le> 46341" by simp
  then have "\<bar>count_subg inst rc ! r\<bar> \<le> 46340"
    by (simp add: count_subg_nth [OF r])
  then show ?thesis by (simp add: clamped_def)
qed

lemma clamp_step_uniform:
  "clamp_step du k (s, n, b) =
     (s[k := clamped du s k], n + int_mult (clamped du s k) (clamped du s k), b \<and> s ! k = 0)"
proof (cases "s ! k = 0")
  case True
  then have "s[k := 0] = s" by (metis list_update_id)
  with True show ?thesis by (simp add: clamp_step_def clamped_def)
next
  case False
  then show ?thesis by (simp add: clamp_step_def clamped_def)
qed

lemma fold_clamp_step:
  "k \<le> length s0 \<Longrightarrow>
   fold (clamp_step du) [0..<k] (s0, n0, b0) = (s, n, b) \<Longrightarrow>
     length s = length s0 \<and>
     (\<forall>r<length s0. s ! r = (if r < k then clamped du s0 r else s0 ! r)) \<and>
     n = n0 + (\<Sum>r\<leftarrow>[0..<k]. int_mult (clamped du s0 r) (clamped du s0 r)) \<and>
     (b \<longleftrightarrow> b0 \<and> (\<forall>r<k. s0 ! r = 0))"
proof (induction k arbitrary: s n b)
  case 0
  then show ?case by simp
next
  case (Suc k)
  obtain s' n' b' where f: "fold (clamp_step du) [0..<k] (s0, n0, b0) = (s', n', b')"
    by (metis prod_cases3)
  from Suc.prems have k: "k < length s0" by simp
  from Suc.IH [OF _ f] k have ih:
    "length s' = length s0"
    "\<forall>r<length s0. s' ! r = (if r < k then clamped du s0 r else s0 ! r)"
    "n' = n0 + (\<Sum>r\<leftarrow>[0..<k]. int_mult (clamped du s0 r) (clamped du s0 r))"
    "b' \<longleftrightarrow> b0 \<and> (\<forall>r<k. s0 ! r = 0)"
    by simp_all
  from ih(2) k have sk: "s' ! k = s0 ! k" by simp
  then have ck: "clamped du s' k = clamped du s0 k"
    by (simp add: clamped_def)
  from Suc.prems(2) f have step: "(s, n, b) = clamp_step du k (s', n', b')"
    by simp
  then have s: "s = s'[k := clamped du s0 k]"
    and n: "n = n' + int_mult (clamped du s0 k) (clamped du s0 k)"
    and b: "b \<longleftrightarrow> b' \<and> s0 ! k = 0"
    by (simp_all add: clamp_step_uniform ck sk)
  have "length s = length s0" by (simp add: s ih(1))
  moreover have "\<forall>r<length s0. s ! r = (if r < Suc k then clamped du s0 r else s0 ! r)"
    using ih(1,2) by (auto simp: s nth_list_update less_Suc_eq)
  moreover have "n = n0 + (\<Sum>r\<leftarrow>[0..<Suc k]. int_mult (clamped du s0 r) (clamped du s0 r))"
    by (simp add: n ih(3))
  moreover have "b \<longleftrightarrow> b0 \<and> (\<forall>r<Suc k. s0 ! r = 0)"
    by (auto simp: b ih(4) less_Suc_eq)
  ultimately show ?case by blast
qed

text \<open>
  C3, as stated, fails: with one row covered by two columns of reduced cost 0 and dual 0
  the entry \<open>-1\<close> is clamped, so every entry is zero after the clamping step, and yet the
  result is the substituted norm 1, not the optimal signal.
\<close>

theorem subg_basic_clamped_zero_counterexample:
  "fst (compute_subg_vector_basic two_col [0, 0] [0]) = [0] \<and>
   snd (compute_subg_vector_basic two_col [0, 0] [0]) \<noteq> - 1"
  by code_simp

text \<open>
  C3, amended: for every well-formed instance in which no row has more than 46341
  entries (so that no \<open>int\<close> product \<open>subg[i] * subg[i]\<close> leaves the range of \<open>int\<close>), every
  dual vector and every reduced-cost vector, the sign-aware variant returns the optimal
  signal \<open>-1\<close> if and only if every entry of the subgradient vector is zero before the
  clamping step (clamping to zero any row with negative entry and dual below 1e-14);
  otherwise it returns the squared Euclidean norm of the clamped vector, substituting 1 if
  that norm is zero.
\<close>

theorem compute_subg_vector_basic_result:
  assumes "wf_instance inst" and "narrow_rows inst" and "length rcs = num_col inst"
    and "length du = num_row inst"
    and "compute_subg_vector_basic inst rcs du = (sg, ret)"
  shows "length sg = num_row inst \<and>
         (\<forall>r<num_row inst. sg ! r = clamped du (count_subg inst rcs) r) \<and>
         (ret = - 1 \<longleftrightarrow> (\<forall>r<num_row inst. count_subg inst rcs ! r = 0)) \<and>
         (ret \<noteq> - 1 \<longrightarrow>
            ret = (if (\<Sum>r\<leftarrow>[0..<num_row inst]. sg ! r * sg ! r) = 0 then 1
                   else (\<Sum>r\<leftarrow>[0..<num_row inst]. sg ! r * sg ! r)))"
proof -
  let ?s0 = "count_subg inst rcs"
  obtain s n b where f: "fold (clamp_step du) [0..<num_row inst] (?s0, 0, True) = (s, n, b)"
    by (metis prod_cases3)
  have len0: "length ?s0 = num_row inst" by (rule length_count_subg)
  from fold_clamp_step [OF _ f] len0 have
    len: "length s = num_row inst" and
    ent: "\<forall>r<num_row inst. s ! r = clamped du ?s0 r" and
    nw: "n = (\<Sum>r\<leftarrow>[0..<num_row inst]. int_mult (clamped du ?s0 r) (clamped du ?s0 r))" and
    b: "b \<longleftrightarrow> (\<forall>r<num_row inst. ?s0 ! r = 0)"
    by simp_all
  have n: "n = (\<Sum>r\<leftarrow>[0..<num_row inst]. clamped du ?s0 r * clamped du ?s0 r)"
    unfolding nw
    by (intro arg_cong [where f = sum_list] map_cong refl int_mult_square
        clamped_small [OF assms(1,2)]) simp
  from ent have sq: "(\<Sum>r\<leftarrow>[0..<num_row inst]. s ! r * s ! r) = n"
    unfolding n by (intro arg_cong [where f = sum_list] map_cong) simp_all
  have n0: "0 \<le> n" unfolding n by (rule sum_list_nonneg) auto
  from assms(5) f have res: "(sg, ret) = (if b then (s, - 1) else (s, if n = 0 then 1 else n))"
    by (simp add: compute_subg_vector_basic_def)
  then have sg: "sg = s" by (simp split: if_splits)
  from res have ret: "ret = (if b then - 1 else if n = 0 then 1 else n)"
    by (simp split: if_splits)
  have "ret = - 1 \<longleftrightarrow> b" using n0 by (auto simp: ret)
  with b have "ret = - 1 \<longleftrightarrow> (\<forall>r<num_row inst. ?s0 ! r = 0)" by simp
  moreover have "ret \<noteq> - 1 \<longrightarrow> ret = (if n = 0 then 1 else n)"
    by (auto simp: ret)
  ultimately show ?thesis
    using len ent by (simp add: sg sq)
qed


lemma two_col_basic: "compute_subg_vector_basic two_col [0, 0] [0] = ([0], 1)"
  by code_simp

lemma two_col_narrow: "narrow_rows two_col"
  by code_simp

theorem compute_subg_vector_basic_result_witness:
  "wf_instance two_col \<and> narrow_rows two_col \<and> length [0, 0 :: real] = num_col two_col \<and>
   length [0 :: real] = num_row two_col \<and>
   compute_subg_vector_basic two_col [0, 0] [0] = ([0], 1) \<and>
   length [0 :: int] = num_row two_col \<and>
   (1 :: int) = (if (\<Sum>r\<leftarrow>[0..<num_row two_col]. [0] ! r * [0] ! r) = (0 :: int) then 1
                 else (\<Sum>r\<leftarrow>[0..<num_row two_col]. [0] ! r * [0] ! r))"
proof -
  have l1: "length [0, 0 :: real] = num_col two_col" and l2: "length [0 :: real] = num_row two_col"
    by (simp_all add: two_col_counts)
  from compute_subg_vector_basic_result [OF two_col_wf two_col_narrow l1 l2 two_col_basic]
  show ?thesis
    using two_col_wf two_col_narrow l1 l2 two_col_basic by simp
qed

section \<open>The initial dual vector: minimum share, reduced costs, objective\<close>

lemma fold_min_le_init:
  "fold (\<lambda>idx m. let value = f idx in if value < m then value else m) cs (m0 :: real) \<le> m0"
proof (induction cs arbitrary: m0)
  case Nil
  then show ?case by simp
next
  case (Cons c cs)
  show ?case
    using Cons.IH [of "f c"] Cons.IH [of m0] by (simp add: Let_def)
qed

lemma fold_min_le_elem:
  "c \<in> set cs \<Longrightarrow>
   fold (\<lambda>idx m. let value = f idx in if value < m then value else m) cs (m0 :: real) \<le> f c"
proof (induction cs arbitrary: m0)
  case Nil
  then show ?case by simp
next
  case (Cons a cs)
  show ?case
  proof (cases "c = a")
    case True
    then show ?thesis
      using fold_min_le_init [of f cs "f a"] fold_min_le_init [of f cs m0]
      by (auto simp: Let_def)
  next
    case False
    with Cons.prems have "c \<in> set cs" by simp
    from Cons.IH [OF this] show ?thesis by (simp add: Let_def)
  qed
qed

lemma fold_min_mem:
  "fold (\<lambda>idx m. let value = f idx in if value < m then value else m) cs (m0 :: real)
     \<in> insert m0 (f ` set cs)"
proof (induction cs arbitrary: m0)
  case Nil
  then show ?case by simp
next
  case (Cons a cs)
  show ?case
    using Cons.IH [of "f a"] Cons.IH [of m0] by (auto simp: Let_def)
qed

lemma fold_min_is_Min:
  assumes "c0 \<in> set cs" and "f c0 \<le> m0"
  shows "fold (\<lambda>idx m. let value = f idx in if value < m then value else m) cs (m0 :: real) =
         Min (f ` set cs)"
proof -
  let ?m = "fold (\<lambda>idx m. let value = f idx in if value < m then value else m) cs m0"
  have le: "\<And>c. c \<in> set cs \<Longrightarrow> ?m \<le> f c" by (rule fold_min_le_elem)
  have "?m \<in> f ` set cs"
  proof (cases "?m = m0")
    case True
    with le [OF assms(1)] assms(2) have "?m = f c0" by simp
    with assms(1) show ?thesis by (metis imageI)
  next
    case False
    with fold_min_mem [of f cs m0] show ?thesis by simp
  qed
  then show ?thesis
    using le by (intro Min_eqI [symmetric]) auto
qed


lemma valid_wf: "valid_instance inst \<Longrightarrow> wf_instance inst"
  by (simp add: valid_instance_def)

lemma valid_costs: "valid_instance inst \<Longrightarrow> c < num_col inst \<Longrightarrow> 0 \<le> costs inst ! c"
  by (auto simp: valid_instance_def wf_instance_def list_all_length)

lemma valid_row_first:
  assumes "valid_instance inst" "i < num_row inst"
  shows "row_wise_a inst ! (row_wise_idx inst ! i) \<in> set (row_cols inst i)"
proof -
  from assms have "row_wise_idx inst ! i < row_wise_idx inst ! (i + 1)"
    by (auto simp: valid_instance_def list_all_upt)
  then have "row_wise_idx inst ! i \<in> set [row_wise_idx inst ! i ..< row_wise_idx inst ! (i + 1)]"
    by simp
  then show ?thesis
    unfolding row_cols_def by (metis (no_types, lifting) image_eqI set_map)
qed

lemma min_value_of_row_Min:
  assumes v: "valid_instance inst" and i: "i < num_row inst"
  shows "min_value_of_row inst i = Min (cost_share inst ` set (row_cols inst i))"
proof -
  let ?c0 = "row_wise_a inst ! (row_wise_idx inst ! i)"
  have wf: "wf_instance inst" using v by (rule valid_wf)
  have c0: "?c0 \<in> set (row_cols inst i)" using v i by (rule valid_row_first)
  then have c0n: "?c0 < num_col inst" using wf i by (metis wf_row_cols_bound)
  have "i \<in> set (col_rows inst ?c0)" using wf i c0 by (rule wf_row_in_col)
  then have "0 < length (col_rows inst ?c0)" by (metis length_pos_if_in_set)
  then have "1 \<le> col_sizes inst ! ?c0"
    using wf_col_sizes [OF wf c0n] by linarith
  then have sz: "1 \<le> real (col_sizes inst ! ?c0)"
    by simp
  have c: "0 \<le> real_of_int (costs inst ! ?c0)" using valid_costs [OF v c0n] by simp
  have "real_of_int (costs inst ! ?c0) / real (col_sizes inst ! ?c0)
          \<le> real_of_int (costs inst ! ?c0) / 1"
    using c sz by (intro divide_left_mono) auto
  then have le: "cost_share inst ?c0 \<le> real_of_int (costs inst ! ?c0)"
    by (simp add: cost_share_def)
  show ?thesis
    unfolding min_value_of_row_def
    using fold_min_is_Min [of ?c0 "row_cols inst i" "cost_share inst", OF c0 le]
    by (simp add: cost_share_def)
qed

lemma fold_subtract_duals:
  "fold (\<lambda>idx value. value - du ! idx) rs (c :: real) = c - (\<Sum>r\<leftarrow>rs. du ! r)"
  by (induction rs arbitrary: c) auto

lemma reduced_cost_of_col_spec: "reduced_cost_of_col inst du c = reduced_cost_spec inst du c"
  by (simp add: reduced_cost_of_col_def reduced_cost_spec_def fold_subtract_duals)

lemma fold_add_sum: "fold (\<lambda>v obj. obj + v) xs (a :: real) = a + sum_list xs"
  by (induction xs arbitrary: a) auto

lemma sum_list_le_const:
  "(\<And>x. x \<in> set xs \<Longrightarrow> f x \<le> (b :: real)) \<Longrightarrow> (\<Sum>x\<leftarrow>xs. f x) \<le> real (length xs) * b"
proof (induction xs)
  case Nil
  then show ?case by simp
next
  case (Cons a xs)
  have "f a \<le> b" by (rule Cons.prems) simp
  moreover have "(\<Sum>x\<leftarrow>xs. f x) \<le> real (length xs) * b"
    by (rule Cons.IH) (simp add: Cons.prems)
  ultimately show ?case by (simp add: algebra_simps)
qed

lemma sum_list_min_nonneg: "\<forall>v\<in>set xs. 0 \<le> v \<Longrightarrow> (\<Sum>v\<leftarrow>xs. min 0 v) = (0 :: real)"
  by (induction xs) auto

lemma init_reduced_cost_nonneg:
  assumes v: "valid_instance inst" and c: "c < num_col inst"
  shows "0 \<le> reduced_cost_spec inst (map (min_value_of_row inst) [0..<num_row inst]) c"
proof -
  let ?du = "map (min_value_of_row inst) [0..<num_row inst]"
  have wf: "wf_instance inst" using v by (rule valid_wf)
  have each: "?du ! r \<le> cost_share inst c" if r: "r \<in> set (col_rows inst c)" for r
  proof -
    have rn: "r < num_row inst" using wf c r by (rule wf_col_rows_bound)
    have "c \<in> set (row_cols inst r)" using wf c r by (rule wf_col_in_row)
    then have "Min (cost_share inst ` set (row_cols inst r)) \<le> cost_share inst c"
      by (intro Min_le) auto
    then show ?thesis using rn by (simp add: min_value_of_row_Min [OF v rn])
  qed
  have "(\<Sum>r\<leftarrow>col_rows inst c. ?du ! r) \<le> real (length (col_rows inst c)) * cost_share inst c"
    using each by (rule sum_list_le_const)
  also have "\<dots> \<le> real_of_int (costs inst ! c)"
    using wf_col_sizes [OF wf c] valid_costs [OF v c] by (simp add: cost_share_def)
  finally show ?thesis by (simp add: reduced_cost_spec_def)
qed

lemma init_dual_vector_facts:
  assumes "valid_instance inst" and "init_dual_vector inst = (du, rcs, obj_value)"
  shows "length du = num_row inst \<and> length rcs = num_col inst \<and>
         (\<forall>i<num_row inst. du ! i = Min (cost_share inst ` set (row_cols inst i))) \<and>
         (\<forall>c<num_col inst. rcs ! c = reduced_cost_spec inst du c) \<and>
         (\<forall>c<num_col inst. 0 \<le> rcs ! c) \<and>
         obj_value = sum_list du \<and>
         obj_value = objective_spec du rcs"
proof -
  from assms(2) have d: "du = map (min_value_of_row inst) [0..<num_row inst]"
    and rc: "rcs = compute_reduced_costs inst du"
    and obj: "obj_value = fold (\<lambda>min_value obj. obj + min_value) du 0"
    by (auto simp: init_dual_vector_def Let_def)
  have rcs: "\<forall>c<num_col inst. rcs ! c = reduced_cost_spec inst du c"
    by (simp add: rc compute_reduced_costs_def reduced_cost_of_col_spec)
  have nonneg: "\<forall>c<num_col inst. 0 \<le> rcs ! c"
    using init_reduced_cost_nonneg [OF assms(1)] rcs by (simp add: d)
  have len: "length rcs = num_col inst"
    by (simp add: rc compute_reduced_costs_def)
  have "\<forall>v\<in>set rcs. 0 \<le> v"
    using nonneg len by (auto simp: in_set_conv_nth)
  then have "(\<Sum>v\<leftarrow>rcs. min 0 v) = 0"
    by (rule sum_list_min_nonneg)
  moreover have s: "obj_value = sum_list du"
    by (simp add: obj fold_add_sum)
  ultimately have "obj_value = objective_spec du rcs"
    by (simp add: objective_spec_def)
  moreover have "\<forall>i<num_row inst. du ! i = Min (cost_share inst ` set (row_cols inst i))"
    using min_value_of_row_Min [OF assms(1)] by (simp add: d)
  ultimately show ?thesis
    using rcs nonneg len s by (simp add: d)
qed

text \<open>
  C6: for every valid instance (non-negative integer costs, every row incident to at least
  one column) the dual initialization sets the dual of each row to the minimum over its
  incident columns of \<open>cost[col] / colSize[col]\<close>, computes the reduced costs of that dual
  vector, and returns the sum of the duals, which is exactly the Lagrangian objective
  \<open>\<Sigma> dual[row] + \<Sigma> min(0, reducedCost[col])\<close> because every initial reduced cost is
  non-negative.
\<close>

theorem init_dual_vector_objective:
  assumes "valid_instance inst" and "init_dual_vector inst = (du, rcs, obj_value)"
  shows "length du = num_row inst \<and> length rcs = num_col inst \<and>
         (\<forall>i<num_row inst. du ! i = Min (cost_share inst ` set (row_cols inst i))) \<and>
         (\<forall>c<num_col inst. rcs ! c = reduced_cost_spec inst du c) \<and>
         (\<forall>c<num_col inst. 0 \<le> rcs ! c) \<and>
         obj_value = sum_list du \<and>
         obj_value = objective_spec du rcs"
  using assms by (rule init_dual_vector_facts)

lemma toy_init: "init_dual_vector toy = ([1 / 2, 1 / 2], [1 / 2, 0, 1 / 2], 1)"
  by code_simp

theorem init_dual_vector_objective_witness:
  "valid_instance toy \<and> init_dual_vector toy = ([1 / 2, 1 / 2], [1 / 2, 0, 1 / 2], 1) \<and>
   (1 :: real) = sum_list [1 / 2, 1 / 2] \<and>
   (1 :: real) = objective_spec [1 / 2, 1 / 2] [1 / 2, 0, 1 / 2]"
  using init_dual_vector_objective [OF toy_valid toy_init] toy_valid toy_init
  by blast

section \<open>Propagating a change of one dual to the reduced costs\<close>

lemma fold_add_const_length:
  "length (fold (\<lambda>c rc. rc[c := rc ! c + (v :: real)]) cs rc) = length rc"
  by (induction cs arbitrary: rc) auto

lemma fold_add_const_nth:
  "c < length rc \<Longrightarrow>
   fold (\<lambda>c rc. rc[c := rc ! c + (v :: real)]) cs rc ! c = rc ! c + v * real (count_list cs c)"
proof (induction cs arbitrary: rc)
  case Nil
  then show ?case by simp
next
  case (Cons a cs)
  then show ?case by (cases "a = c") (auto simp: nth_list_update algebra_simps)
qed

lemma subtract_from_cols_add: "subtract_from_cols inst i v rc = add_to_cols inst i (- v) rc"
  by (simp add: subtract_from_cols_def add_to_cols_def)

lemma length_add_to_cols: "length (add_to_cols inst i v rc) = length rc"
  by (simp add: add_to_cols_def fold_add_const_length)

lemma length_subtract_from_cols: "length (subtract_from_cols inst i v rc) = length rc"
  by (simp add: subtract_from_cols_add length_add_to_cols)

lemma add_to_cols_nth:
  "c < length rc \<Longrightarrow>
   add_to_cols inst i v rc ! c = rc ! c + v * real (count_list (row_cols inst i) c)"
  by (simp add: add_to_cols_def fold_add_const_nth)

lemma sum_list_nth_update:
  "i < length xs \<Longrightarrow>
   (\<Sum>r\<leftarrow>rs. (xs[i := x]) ! r) = (\<Sum>r\<leftarrow>rs. xs ! r) + (x - xs ! i) * real (count_list rs i)"
  for x :: real
  by (induction rs) (auto simp: nth_list_update algebra_simps)

lemma consistent_add:
  assumes wf: "wf_instance inst" and i: "i < num_row inst" and len: "length d = num_row inst"
    and c: "consistent inst d rc"
  shows "consistent inst (d[i := d ! i - v]) (add_to_cols inst i v rc)"
proof -
  have "add_to_cols inst i v rc ! c = reduced_cost_spec inst (d[i := d ! i - v]) c"
    if cn: "c < num_col inst" for c
  proof -
    have cl: "c < length rc" using c cn by (simp add: consistent_def)
    have t: "count_list (col_rows inst c) i = count_list (row_cols inst i) c"
      using wf cn i by (rule wf_transpose)
    have "rc ! c = reduced_cost_spec inst d c" using c cn by (simp add: consistent_def)
    then show ?thesis
      using i len by (simp add: add_to_cols_nth cl reduced_cost_spec_def sum_list_nth_update t)
  qed
  then show ?thesis
    using c by (simp add: consistent_def length_add_to_cols)
qed

lemma consistent_subtract:
  assumes "wf_instance inst" "i < num_row inst" "length d = num_row inst" "consistent inst d rc"
  shows "consistent inst (d[i := d ! i + v]) (subtract_from_cols inst i v rc)"
  using consistent_add [OF assms, of "- v"] by (simp add: subtract_from_cols_add)

lemma add_negative_eq: "add_negative rc a = a + (\<Sum>v\<leftarrow>rc. min 0 v)"
  unfolding add_negative_def by (induction rc arbitrary: a) (auto simp: min_def)


section \<open>The row loop of the spectral driver\<close>

lemma buf_store: "buf (store b i v s) b' = (if b' = b then (buf s b)[i := v] else buf s b')"
  by (cases b; cases b') (simp_all add: buf_def store_def)

lemma update_row_frame:
  "curr_dual (update_row inst g i s) = curr_dual s"
  "old_dual (update_row inst g i s) = old_dual s"
  "best_dual (update_row inst g i s) = best_dual s"
  "alpha (update_row inst g i s) = alpha s"
  "subg1 (update_row inst g i s) = subg1 s"
  "subg2 (update_row inst g i s) = subg2 s"
  "best_obj (update_row inst g i s) = best_obj s"
  "worst_obj (update_row inst g i s) = worst_obj s"
  "past_objs (update_row inst g i s) = past_objs s"
  "worst_obj_idx (update_row inst g i s) = worst_obj_idx s"
  "eta_not (update_row inst g i s) = eta_not s"
  "is_opt (update_row inst g i s) = is_opt s"
  by (cases "curr_dual s"; simp add: update_row_def Let_def store_def)+

lemma update_row_momentum:
  "momentum (update_row inst g i s) = (momentum s)[i := new_momentum s g i]"
  by (cases "curr_dual s"; simp add: update_row_def Let_def store_def new_momentum_def)

lemma update_row_buf:
  "buf (update_row inst g i s) b =
     (if b = curr_dual s
      then (buf s b)[i := buf s (old_dual s) ! i +
                          (if outside_tol (step_value s g i) then step_value s g i else 0)]
      else buf s b)"
  by (cases "curr_dual s"; cases "old_dual s"; cases b;
      simp add: update_row_def Let_def store_def buf_def step_value_def new_momentum_def outside_tol_def)

lemma update_row_reduced_costs:
  "reduced_costs (update_row inst g i s) =
     (if outside_tol (step_value s g i)
      then subtract_from_cols inst i (step_value s g i) (reduced_costs s) else reduced_costs s)"
  by (cases "curr_dual s"; cases "old_dual s";
      simp add: update_row_def Let_def store_def buf_def step_value_def new_momentum_def outside_tol_def)

lemma update_row_dd:
  "dd (update_row inst g i s) =
     (if outside_tol (step_value s g i) then dd s @ [(i, step_value s g i)] else dd s)"
  by (cases "curr_dual s"; cases "old_dual s";
      simp add: update_row_def Let_def store_def buf_def step_value_def new_momentum_def outside_tol_def)

lemma update_row_product:
  "product (update_row inst g i s) =
     (if outside_tol (step_value s g i)
      then product s + step_value s g i * new_momentum s g i else product s)"
  by (cases "curr_dual s"; cases "old_dual s";
      simp add: update_row_def Let_def store_def buf_def step_value_def new_momentum_def outside_tol_def)

lemma update_row_sub_obj:
  "sub_obj (update_row inst g i s) = sub_obj s + buf (update_row inst g i s) (curr_dual s) ! i"
  by (cases "curr_dual s"; cases "old_dual s";
      simp add: update_row_def Let_def store_def buf_def step_value_def new_momentum_def outside_tol_def)


lemma length_mixed: "length (mixed i c od) = length od"
  by (simp add: mixed_def)

lemma mixed_nth: "r < length od \<Longrightarrow> mixed i c od ! r = (if r < i then c ! r else od ! r)"
  by (simp add: mixed_def)

lemma mixed_Suc:
  "i < length od \<Longrightarrow> length c = length od \<Longrightarrow>
   mixed (Suc i) (c[i := x]) od = (mixed i c od)[i := x]"
  by (auto simp: list_eq_iff_nth_eq length_mixed mixed_nth nth_list_update)

lemma mixed_full: "length c = length od \<Longrightarrow> mixed (length od) c od = c"
  by (auto simp: list_eq_iff_nth_eq length_mixed mixed_nth)

lemma sum_upt_update:
  "(\<Sum>r\<leftarrow>[0..<i]. (c[i := x]) ! r) = (\<Sum>r\<leftarrow>[0..<i]. c ! r)" for c :: "real list"
  by (intro arg_cong [where f = sum_list] map_cong) auto

lemma step_value_cases:
  assumes "0 \<le> buf s (old_dual s) ! i"
  shows "0 \<le> buf s (old_dual s) ! i + step_value s g i"
    and "outside_tol (step_value s g i) \<Longrightarrow> 0 < step_value s g i * new_momentum s g i"
proof -
  let ?odd = "buf s (old_dual s) ! i" and ?m = "new_momentum s g i"
  show "0 \<le> ?odd + step_value s g i"
    by (simp add: step_value_def Let_def)
  assume out: "outside_tol (step_value s g i)"
  have tol: "0 < ZERO_TOL" by (simp add: ZERO_TOL_def)
  show "0 < step_value s g i * ?m"
  proof (cases "?odd + ?m < 0")
    case True
    then have v: "step_value s g i = - ?odd" by (simp add: step_value_def Let_def)
    with out tol assms have "0 < ?odd" by (auto simp: outside_tol_def)
    moreover from True assms have "?m < 0" by linarith
    ultimately show ?thesis by (simp add: v mult_pos_neg)
  next
    case False
    then have v: "step_value s g i = ?m" by (simp add: step_value_def Let_def)
    with out tol have "?m \<noteq> 0" by (auto simp: outside_tol_def)
    then show ?thesis by (auto simp: v zero_less_mult_iff)
  qed
qed


lemma row_inv_step:
  assumes wf: "wf_instance inst" and i: "i < num_row inst" and od: "nonneg inst od"
    and inv: "row_inv inst od i s"
  shows "row_inv inst od (Suc i) (update_row inst g i s)"
proof -
  let ?s' = "update_row inst g i s"
  let ?c = "buf s (curr_dual s)" and ?v = "step_value s g i"
  let ?d = "if outside_tol ?v then ?v else 0"
  from inv have len: "length (dual1 s) = num_row inst" "length (dual2 s) = num_row inst"
    "length (momentum s) = num_row inst" "length od = num_row inst"
    and old: "\<forall>r<num_row inst. i \<le> r \<longrightarrow> buf s (old_dual s) ! r = od ! r"
    and pos: "\<forall>r<i. 0 \<le> ?c ! r"
    and cons: "consistent inst (mixed i ?c od) (reduced_costs s)"
    and sub: "sub_obj s = (\<Sum>r\<leftarrow>[0..<i]. ?c ! r)"
    and dist: "distinct (map fst (dd s))"
    and dds: "\<forall>p\<in>set (dd s). fst p < i \<and> outside_tol (snd p) \<and>
        0 \<le> ?c ! fst p - snd p \<and> 0 < snd p * momentum s ! fst p"
    and prod: "product s = (\<Sum>p\<leftarrow>dd s. snd p * momentum s ! fst p)"
    by (simp_all add: row_inv_def)
  have lenb: "length (buf s b) = num_row inst" for b
    using len by (cases b) (simp_all add: buf_def)
  have oi: "buf s (old_dual s) ! i = od ! i" using old i by simp
  have odi: "0 \<le> od ! i" using od i by (simp add: nonneg_def)
  then have oi0: "0 \<le> buf s (old_dual s) ! i" by (simp add: oi)
  have c': "buf ?s' (curr_dual ?s') = ?c[i := od ! i + ?d]"
    by (simp add: update_row_frame update_row_buf oi)
  have o': "buf ?s' (old_dual ?s') ! r = buf s (old_dual s) ! r" if "r \<noteq> i" for r
    using that by (simp add: update_row_frame update_row_buf)
  have l1: "length (dual1 ?s') = num_row inst" "length (dual2 ?s') = num_row inst"
    using lenb [of Dual1] lenb [of Dual2] update_row_buf [of inst g i s Dual1]
      update_row_buf [of inst g i s Dual2]
    by (auto simp: buf_def split: if_splits)
  have l2: "length (momentum ?s') = num_row inst"
    by (simp add: update_row_momentum len)
  have a: "\<forall>r<num_row inst. Suc i \<le> r \<longrightarrow> buf ?s' (old_dual ?s') ! r = od ! r"
    using old o' by auto
  have newpos: "0 \<le> od ! i + ?d"
    using step_value_cases(1) [OF oi0, of g] odi by (auto simp: oi)
  have b: "\<forall>r<Suc i. 0 \<le> buf ?s' (curr_dual ?s') ! r"
    using pos newpos i lenb [of "curr_dual s"]
    by (auto simp: c' nth_list_update less_Suc_eq)
  have mi: "mixed i ?c od ! i = od ! i"
    using i len by (simp add: mixed_nth)
  have lm: "length (mixed i ?c od) = num_row inst"
    by (simp add: length_mixed len)
  have mx: "mixed (Suc i) (?c[i := od ! i + x]) od = (mixed i ?c od)[i := mixed i ?c od ! i + x]"
    for x
    using i len lenb [of "curr_dual s"] by (simp add: mixed_Suc mi)
  have c: "consistent inst (mixed (Suc i) (buf ?s' (curr_dual ?s')) od) (reduced_costs ?s')"
  proof (cases "outside_tol ?v")
    case True
    have "consistent inst (mixed (Suc i) (?c[i := od ! i + ?v]) od)
            (subtract_from_cols inst i ?v (reduced_costs s))"
      unfolding mx by (rule consistent_subtract [OF wf i lm cons])
    with True show ?thesis
      by (simp add: c' update_row_reduced_costs)
  next
    case False
    have "mixed (Suc i) (?c[i := od ! i + 0]) od = mixed i ?c od"
      unfolding mx by simp
    with False show ?thesis
      using cons by (simp add: c' update_row_reduced_costs)
  qed
  have c'': "buf ?s' (curr_dual s) = ?c[i := od ! i + ?d]"
    using c' by (simp add: update_row_frame)
  have "sub_obj ?s' = sub_obj s + (?c[i := od ! i + ?d]) ! i"
    by (simp only: update_row_sub_obj c'')
  also have "\<dots> = (\<Sum>r\<leftarrow>[0..<i]. (?c[i := od ! i + ?d]) ! r) + (?c[i := od ! i + ?d]) ! i"
    by (simp only: sub sum_upt_update)
  also have "\<dots> = (\<Sum>r\<leftarrow>[0..<Suc i]. (?c[i := od ! i + ?d]) ! r)"
    by simp
  finally have d: "sub_obj ?s' = (\<Sum>r\<leftarrow>[0..<Suc i]. buf ?s' (curr_dual ?s') ! r)"
    by (simp only: c')
  have mom: "momentum ?s' ! r = momentum s ! r" if "r < i" for r
    using that by (simp add: update_row_momentum)
  have momi: "momentum ?s' ! i = new_momentum s g i"
    using i len by (simp add: update_row_momentum)
  have fsts: "i \<notin> fst ` set (dd s)" using dds by auto
  have e: "distinct (map fst (dd ?s'))"
    using dist fsts by (simp add: update_row_dd)
  have f: "\<forall>p\<in>set (dd ?s'). fst p < Suc i \<and> outside_tol (snd p) \<and>
        0 \<le> buf ?s' (curr_dual ?s') ! fst p - snd p \<and> 0 < snd p * momentum ?s' ! fst p"
  proof
    fix p assume p: "p \<in> set (dd ?s')"
    show "fst p < Suc i \<and> outside_tol (snd p) \<and>
        0 \<le> buf ?s' (curr_dual ?s') ! fst p - snd p \<and> 0 < snd p * momentum ?s' ! fst p"
    proof (cases "p \<in> set (dd s)")
      case True
      with dds have "fst p < i" "outside_tol (snd p)" "0 \<le> ?c ! fst p - snd p"
        "0 < snd p * momentum s ! fst p" by auto
      then show ?thesis by (simp add: c' mom)
    next
      case False
      with p have out: "outside_tol ?v" and pe: "p = (i, ?v)"
        by (auto simp: update_row_dd split: if_splits)
      have "0 < ?v * new_momentum s g i"
        using step_value_cases(2) [OF oi0 out] .
      then show ?thesis
        using out odi i lenb [of "curr_dual s"] by (simp add: pe c' momi)
    qed
  qed
  have sm: "(\<Sum>p\<leftarrow>dd s. snd p * momentum ?s' ! fst p) = (\<Sum>p\<leftarrow>dd s. snd p * momentum s ! fst p)"
    using dds by (intro arg_cong [where f = sum_list] map_cong) (auto simp: mom)
  have g: "product ?s' = (\<Sum>p\<leftarrow>dd ?s'. snd p * momentum ?s' ! fst p)"
    by (simp add: update_row_product update_row_dd sm prod momi)
  show ?thesis
    unfolding row_inv_def using l1 l2 len(4) a b c d e f g by blast
qed


lemma buf_sps_updates [simp]:
  "buf (s\<lparr>dd := x1\<rparr>) b = buf s b"
  "buf (s\<lparr>sub_obj := x2\<rparr>) b = buf s b"
  "buf (s\<lparr>product := x3\<rparr>) b = buf s b"
  "buf (s\<lparr>momentum := x4\<rparr>) b = buf s b"
  "buf (s\<lparr>tau := x5\<rparr>) b = buf s b"
  "buf (s\<lparr>accept := x6\<rparr>) b = buf s b"
  "buf (s\<lparr>alpha := x7\<rparr>) b = buf s b"
  "buf (s\<lparr>eta_not := x8\<rparr>) b = buf s b"
  "buf (s\<lparr>subg1 := x9\<rparr>) b = buf s b"
  "buf (s\<lparr>subg2 := x10\<rparr>) b = buf s b"
  "buf (s\<lparr>is_opt := x11\<rparr>) b = buf s b"
  "buf (s\<lparr>past_objs := x12\<rparr>) b = buf s b"
  "buf (s\<lparr>worst_obj := x13\<rparr>) b = buf s b"
  "buf (s\<lparr>worst_obj_idx := x14\<rparr>) b = buf s b"
  for s :: sps_state
  by (cases b; simp add: buf_def)+

lemma buf_dual_updates [simp]:
  "buf (s\<lparr>reduced_costs := y1\<rparr>) b = buf s b"
  "buf (s\<lparr>curr_obj := y2\<rparr>) b = buf s b"
  "buf (s\<lparr>best_obj := y3\<rparr>) b = buf s b"
  "buf (s\<lparr>curr_dual := y4\<rparr>) b = buf s b"
  "buf (s\<lparr>old_dual := y5\<rparr>) b = buf s b"
  "buf (s\<lparr>best_dual := y6\<rparr>) b = buf s b"
  by (cases b; simp add: buf_def)+

lemma fold_upt_inv:
  assumes "P 0 s" and "\<And>i t. i < n \<Longrightarrow> P i t \<Longrightarrow> P (Suc i) (f i t)"
  shows "P n (fold f [0..<n] s)"
  using assms
proof (induction n)
  case 0
  then show ?case by simp
next
  case (Suc n)
  have "P n (fold f [0..<n] s)"
    by (rule Suc.IH) (use Suc.prems in auto)
  then show ?case
    using Suc.prems(2) [of n] by simp
qed

lemma fold_inv:
  assumes "P s" and "\<And>x t. x \<in> set xs \<Longrightarrow> P t \<Longrightarrow> P (f x t)"
  shows "P (fold f xs s)"
  using assms by (induction xs arbitrary: s) auto

lemma sps_frame_refl: "sps_frame s s"
  by (simp add: sps_frame_def)

lemma update_row_sps_frame: "sps_frame s t \<Longrightarrow> sps_frame s (update_row inst g i t)"
  by (simp add: sps_frame_def update_row_frame)

lemma fold_update_row_frame: "sps_frame s (fold (update_row inst g) rows s)"
  by (rule fold_inv) (simp_all add: sps_frame_refl update_row_sps_frame)

lemma tentative_step_frame: "sps_frame s (tentative_step inst itr s)"
proof -
  let ?s0 = "s\<lparr>dd := [], sub_obj := 0, product := 0\<rparr>"
  have "sps_frame ?s0 (fold (update_row inst (old_subg itr ?s0)) [0..<num_row inst] ?s0)"
    by (rule fold_update_row_frame)
  then show ?thesis
    by (simp add: tentative_step_def Let_def sps_frame_def)
qed

lemma row_inv_start:
  assumes "sps_head_inv inst s"
  shows "row_inv inst (buf s (old_dual s)) 0 (s\<lparr>dd := [], sub_obj := 0, product := 0\<rparr>)"
proof -
  let ?od = "buf s (old_dual s)"
  from assms have len: "length ?od = num_row inst" and c: "consistent inst ?od (reduced_costs s)"
    and l: "length (dual1 s) = num_row inst" "length (dual2 s) = num_row inst"
      "length (momentum s) = num_row inst"
    by (simp_all add: sps_head_inv_def nonneg_def)
  have m: "mixed 0 c ?od = ?od" for c
    by (auto simp: list_eq_iff_nth_eq length_mixed mixed_nth)
  show ?thesis
    using len c l by (simp add: row_inv_def m)
qed

lemma row_inv_tentative:
  assumes wf: "wf_instance inst" and h: "sps_head_inv inst s"
  shows "row_inv inst (buf s (old_dual s)) (num_row inst)
           (fold (update_row inst g) [0..<num_row inst] (s\<lparr>dd := [], sub_obj := 0, product := 0\<rparr>))"
proof (rule fold_upt_inv)
  show "row_inv inst (buf s (old_dual s)) 0 (s\<lparr>dd := [], sub_obj := 0, product := 0\<rparr>)"
    using h by (rule row_inv_start)
next
  fix i t
  assume "i < num_row inst" "row_inv inst (buf s (old_dual s)) i t"
  moreover have "nonneg inst (buf s (old_dual s))" using h by (simp add: sps_head_inv_def)
  ultimately show "row_inv inst (buf s (old_dual s)) (Suc i) (update_row inst g i t)"
    using wf by (intro row_inv_step)
qed


lemma sum_list_nth_upt: "(\<Sum>r\<leftarrow>[0..<length c]. c ! r) = sum_list c" for c :: "real list"
  by (simp add: map_nth)

lemma objective_spec_add_negative:
  "add_negative rc (sum_list d) = objective_spec d rc"
  by (simp add: add_negative_eq objective_spec_def)

lemma sum_list_pos_terms:
  "(\<And>x. x \<in> set xs \<Longrightarrow> 0 < f x) \<Longrightarrow> 0 \<le> (\<Sum>x\<leftarrow>xs. f x) \<and> (xs \<noteq> [] \<longrightarrow> 0 < (\<Sum>x\<leftarrow>xs. f x))"
  for f :: "'a \<Rightarrow> real"
proof (induction xs)
  case Nil
  then show ?case by simp
next
  case (Cons a xs)
  have "0 < f a" by (rule Cons.prems) simp
  moreover have "0 \<le> (\<Sum>x\<leftarrow>xs. f x)" using Cons by simp
  ultimately show ?case by simp
qed

lemma tentative_eval_inv:
  assumes wf: "wf_instance inst" and h: "sps_head_inv inst s"
  shows "sps_eval_inv inst (tentative inst itr s)"
proof -
  define s0 where "s0 = s\<lparr>dd := [], sub_obj := 0, product := 0\<rparr>"
  define t where "t = fold (update_row inst (old_subg itr s0)) [0..<num_row inst] s0"
  define od where "od = buf s (old_dual s)"
  define c where "c = buf t (curr_dual t)"
  have ri: "row_inv inst od (num_row inst) t"
    unfolding t_def s0_def od_def using wf h by (rule row_inv_tentative)
  have "sps_frame s0 t" unfolding t_def by (rule fold_update_row_frame)
  then have fr: "curr_dual t = curr_dual s" "best_dual t = best_dual s" "alpha t = alpha s"
    "eta_not t = eta_not s"
    by (simp_all add: sps_frame_def s0_def)
  from ri have len: "length (dual1 t) = num_row inst" "length (dual2 t) = num_row inst"
    "length (momentum t) = num_row inst" "length od = num_row inst"
    and pos: "\<forall>r<num_row inst. 0 \<le> c ! r"
    and cons: "consistent inst (mixed (num_row inst) c od) (reduced_costs t)"
    and sub: "sub_obj t = (\<Sum>r\<leftarrow>[0..<num_row inst]. c ! r)"
    and dist: "distinct (map fst (dd t))"
    and dds: "\<forall>p\<in>set (dd t). fst p < num_row inst \<and> outside_tol (snd p) \<and>
        0 \<le> c ! fst p - snd p \<and> 0 < snd p * momentum t ! fst p"
    and prod: "product t = (\<Sum>p\<leftarrow>dd t. snd p * momentum t ! fst p)"
    unfolding row_inv_def c_def by blast+
  have lc: "length c = num_row inst"
    unfolding c_def using len by (cases "curr_dual t") (simp_all add: buf_def)
  have mx: "mixed (num_row inst) c od = c"
    using mixed_full [of c od] lc len by simp
  have sub': "sub_obj t = sum_list c"
    using sum_list_nth_upt [of c] by (simp add: sub lc)
  have pp: "0 \<le> product t \<and> (dd t \<noteq> [] \<longrightarrow> 0 < product t)"
    unfolding prod by (rule sum_list_pos_terms) (use dds in auto)
  have al: "0 < alpha s" "best_dual s \<noteq> curr_dual s"
    using h by (simp_all add: sps_head_inv_def)
  define e where "e = fin_minus (worst_obj t + gamma * 1 * (product t / alpha t))
                      (ieee_quot (eta_not t) (real itr powr (11 / 10)))"
  have tent: "tentative inst itr s =
      t\<lparr>curr_obj := add_negative (reduced_costs t) (sub_obj t),
          product := product t / alpha t, tau := 1, accept := e\<rparr>"
    by (simp add: tentative_def tentative_step_def start_search_def Let_def t_def s0_def e_def)
  have nn: "nonneg inst c" using lc pos by (simp add: nonneg_def)
  have co: "consistent inst c (reduced_costs t)" using cons by (simp add: mx)
  have ob: "add_negative (reduced_costs t) (sub_obj t) = objective_spec c (reduced_costs t)"
    by (simp add: sub' objective_spec_add_negative)
  have d1: "\<forall>p\<in>set (dd t). fst p < num_row inst \<and> outside_tol (snd p) \<and>
        0 \<le> c ! fst p - 1 * snd p"
    using dds by auto
  have p1: "0 \<le> product t / alpha t" "dd t \<noteq> [] \<longrightarrow> 0 < product t / alpha t"
    using pp al(1) by (simp_all add: fr)
  have c': "buf t (curr_dual s) = c" by (simp add: c_def fr)
  show ?thesis
    unfolding tent sps_eval_inv_def
    using len nn co ob sub' dist d1 p1 al
    by (simp add: fr c')
qed


section \<open>The line search of the spectral driver\<close>

lemma sum_list_update_real:
  "i < length xs \<Longrightarrow> sum_list (xs[i := x]) = sum_list xs + x - xs ! i" for x :: real
proof (induction xs arbitrary: i)
  case Nil
  then show ?case by simp
next
  case (Cons a xs)
  then show ?case by (cases i) auto
qed

lemma rollback_row_frame:
  "sps_frame s (rollback_row inst p s)"
  "tau (rollback_row inst p s) = tau s"
  "dd (rollback_row inst p s) = dd s"
  "product (rollback_row inst p s) = product s"
  "momentum (rollback_row inst p s) = momentum s"
  "accept (rollback_row inst p s) = accept s"
  by (cases p; cases "curr_dual s"; simp add: rollback_row_def Let_def store_def sps_frame_def)+

lemma rollback_row_buf:
  "buf (rollback_row inst p s) b =
     (if b = curr_dual s \<and> outside_tol (tau s * snd p)
      then (buf s b)[fst p := buf s b ! fst p - tau s * snd p] else buf s b)"
  by (cases p; cases "curr_dual s"; cases b;
      simp add: rollback_row_def Let_def store_def buf_def outside_tol_def)

lemma rollback_row_reduced_costs:
  "reduced_costs (rollback_row inst p s) =
     (if outside_tol (tau s * snd p)
      then add_to_cols inst (fst p) (tau s * snd p) (reduced_costs s) else reduced_costs s)"
  by (cases p; cases "curr_dual s";
      simp add: rollback_row_def Let_def store_def buf_def outside_tol_def)

lemma rollback_row_sub_obj:
  "sub_obj (rollback_row inst p s) =
     (if outside_tol (tau s * snd p) then sub_obj s - tau s * snd p else sub_obj s)"
  by (cases p; cases "curr_dual s";
      simp add: rollback_row_def Let_def store_def buf_def outside_tol_def)

lemma rollback_row_other:
  "r \<noteq> fst p \<Longrightarrow> buf (rollback_row inst p s) b ! r = buf s b ! r"
  by (simp add: rollback_row_buf)

lemma rollback_row_ok:
  assumes wf: "wf_instance inst" and ok: "dual_ok inst s" and r: "fst p < num_row inst"
    and pre: "0 \<le> buf s (curr_dual s) ! fst p - 2 * tau s * snd p"
  shows "dual_ok inst (rollback_row inst p s)"
    and "0 \<le> buf (rollback_row inst p s) (curr_dual s) ! fst p - tau s * snd p"
proof -
  let ?c = "buf s (curr_dual s)" and ?v = "tau s * snd p" and ?s' = "rollback_row inst p s"
  from ok have len: "length (dual1 s) = num_row inst" "length (dual2 s) = num_row inst"
    and nn: "nonneg inst ?c" and co: "consistent inst ?c (reduced_costs s)"
    and so: "sub_obj s = sum_list ?c"
    by (simp_all add: dual_ok_def)
  have lc: "length ?c = num_row inst" using nn by (simp add: nonneg_def)
  have cr: "0 \<le> ?c ! fst p" using nn r by (simp add: nonneg_def)
  have half: "0 \<le> ?c ! fst p - ?v" using cr pre by simp
  have cd: "curr_dual ?s' = curr_dual s"
    using rollback_row_frame(1) [of s inst p] by (simp add: sps_frame_def)
  show "0 \<le> buf ?s' (curr_dual s) ! fst p - tau s * snd p"
    using half pre r lc by (simp add: rollback_row_buf algebra_simps)
  have lens: "length (dual1 ?s') = num_row inst" "length (dual2 ?s') = num_row inst"
    using len rollback_row_buf [of inst p s Dual1] rollback_row_buf [of inst p s Dual2]
    by (auto simp: buf_def split: if_splits)
  show "dual_ok inst ?s'"
  proof (cases "outside_tol ?v")
    case True
    have b: "buf ?s' (curr_dual ?s') = ?c[fst p := ?c ! fst p - ?v]"
      using True by (simp add: rollback_row_buf cd)
    have 1: "nonneg inst (?c[fst p := ?c ! fst p - ?v])"
      unfolding nonneg_def
    proof (intro conjI allI impI)
      show "length (?c[fst p := ?c ! fst p - ?v]) = num_row inst" by (simp add: lc)
      fix r assume "r < num_row inst"
      then show "0 \<le> ?c[fst p := ?c ! fst p - ?v] ! r"
        using nn half lc by (cases "r = fst p") (simp_all add: nonneg_def)
    qed
    have 2: "consistent inst (?c[fst p := ?c ! fst p - ?v]) (add_to_cols inst (fst p) ?v (reduced_costs s))"
      using wf r lc co by (rule consistent_add)
    have 3: "sub_obj s - ?v = sum_list (?c[fst p := ?c ! fst p - ?v])"
      using r lc by (simp add: sum_list_update_real so)
    show ?thesis
      unfolding dual_ok_def b using lens 1 2 3 True
      by (simp add: rollback_row_reduced_costs rollback_row_sub_obj)
  next
    case False
    then have "buf ?s' (curr_dual ?s') = ?c"
      by (simp add: rollback_row_buf cd)
    then show ?thesis
      unfolding dual_ok_def using lens nn co so False
      by (simp add: rollback_row_reduced_costs rollback_row_sub_obj)
  qed
qed

lemma rollback_fold:
  assumes wf: "wf_instance inst"
  shows "dual_ok inst s \<Longrightarrow> distinct (map fst ps) \<Longrightarrow>
     \<forall>p\<in>set ps. fst p < num_row inst \<and> 0 \<le> buf s (curr_dual s) ! fst p - 2 * tau s * snd p \<Longrightarrow>
     dual_ok inst (fold (rollback_row inst) ps s) \<and>
     (\<forall>p\<in>set ps. 0 \<le> buf (fold (rollback_row inst) ps s) (curr_dual s) ! fst p - tau s * snd p) \<and>
     (\<forall>r b. r \<notin> fst ` set ps \<longrightarrow> buf (fold (rollback_row inst) ps s) b ! r = buf s b ! r) \<and>
     sps_frame s (fold (rollback_row inst) ps s) \<and>
     tau (fold (rollback_row inst) ps s) = tau s \<and>
     dd (fold (rollback_row inst) ps s) = dd s \<and>
     product (fold (rollback_row inst) ps s) = product s \<and>
     momentum (fold (rollback_row inst) ps s) = momentum s \<and>
     accept (fold (rollback_row inst) ps s) = accept s"
proof (induction ps arbitrary: s)
  case Nil
  then show ?case by (simp add: sps_frame_refl)
next
  case (Cons p ps)
  let ?s1 = "rollback_row inst p s"
  let ?t = "fold (rollback_row inst) ps ?s1"
  have cd: "curr_dual ?s1 = curr_dual s" and ta: "tau ?s1 = tau s"
    using rollback_row_frame(1) [of s inst p] by (simp_all add: sps_frame_def rollback_row_frame)
  from Cons.prems have p: "fst p < num_row inst"
    "0 \<le> buf s (curr_dual s) ! fst p - 2 * tau s * snd p" by simp_all
  have ok1: "dual_ok inst ?s1" and p1: "0 \<le> buf ?s1 (curr_dual s) ! fst p - tau s * snd p"
    using rollback_row_ok [OF wf Cons.prems(1) p] by simp_all
  from Cons.prems(2) have d: "distinct (map fst ps)" and np: "fst p \<notin> fst ` set ps" by simp_all
  have pre1: "\<forall>q\<in>set ps. fst q < num_row inst \<and>
      0 \<le> buf ?s1 (curr_dual ?s1) ! fst q - 2 * tau ?s1 * snd q"
  proof
    fix q assume q: "q \<in> set ps"
    with np have "fst q \<noteq> fst p" by (metis imageI)
    then have "buf ?s1 (curr_dual s) ! fst q = buf s (curr_dual s) ! fst q"
      by (rule rollback_row_other)
    with Cons.prems(3) q show "fst q < num_row inst \<and>
      0 \<le> buf ?s1 (curr_dual ?s1) ! fst q - 2 * tau ?s1 * snd q"
      by (simp add: cd ta)
  qed
  note ih = Cons.IH [OF ok1 d pre1]
  have fr: "sps_frame s ?t"
    using ih rollback_row_frame(1) [of s inst p] by (simp add: sps_frame_def)
  have same: "buf ?t b ! r = buf s b ! r" if "r \<notin> fst ` set (p # ps)" for r b
  proof -
    from that have "r \<notin> fst ` set ps" "r \<noteq> fst p" by auto
    then show ?thesis using ih by (simp add: rollback_row_other)
  qed
  have pp: "0 \<le> buf ?t (curr_dual s) ! fst p - tau s * snd p"
    using ih np p1 by simp
  show ?case
    using ih fr same pp by (simp add: cd ta rollback_row_frame)
qed


lemma dual_ok_tau [simp]: "dual_ok inst (s\<lparr>tau := x\<rparr>) = dual_ok inst s"
  by (simp add: dual_ok_def)

lemma eval_inv_dual_ok: "sps_eval_inv inst s \<Longrightarrow> dual_ok inst s"
  by (simp add: sps_eval_inv_def dual_ok_def)

lemma ls_body_eval_inv:
  assumes wf: "wf_instance inst" and e: "sps_eval_inv inst s"
  shows "sps_eval_inv inst (ls_body inst s)"
proof -
  define s1 where "s1 = s\<lparr>tau := tau s * (1 / 2)\<rparr>"
  define t where "t = fold (rollback_row inst) (dd s1) s1"
  have s1: "tau s1 = tau s / 2" "dd s1 = dd s" "curr_dual s1 = curr_dual s"
    "buf s1 (curr_dual s) = buf s (curr_dual s)" "momentum s1 = momentum s"
    "product s1 = product s" "alpha s1 = alpha s" "eta_not s1 = eta_not s"
    "best_dual s1 = best_dual s" "accept s1 = accept s"
    by (simp_all add: s1_def)
  from e have ok: "dual_ok inst s1" by (simp add: s1_def eval_inv_dual_ok)
  from e have dist: "distinct (map fst (dd s1))" by (simp add: sps_eval_inv_def s1)
  from e have dds: "\<forall>p\<in>set (dd s). fst p < num_row inst \<and> outside_tol (snd p) \<and>
        0 \<le> buf s (curr_dual s) ! fst p - tau s * snd p"
    and rest: "length (momentum s) = num_row inst" "0 < tau s" "0 \<le> product s"
      "dd s \<noteq> [] \<longrightarrow> 0 < product s" "0 < alpha s"
      "best_dual s \<noteq> curr_dual s"
    by (simp_all add: sps_eval_inv_def)
  have pre: "\<forall>p\<in>set (dd s1). fst p < num_row inst \<and>
      0 \<le> buf s1 (curr_dual s1) ! fst p - 2 * tau s1 * snd p"
    using dds by (simp add: s1)
  from rollback_fold [OF wf ok dist pre] have
    okt: "dual_ok inst t" and
    ddt: "\<forall>p\<in>set (dd s). 0 \<le> buf t (curr_dual s) ! fst p - tau s / 2 * snd p" and
    fr: "sps_frame s1 t" and
    eqs: "tau t = tau s / 2" "dd t = dd s" "product t = product s" "momentum t = momentum s"
      "accept t = accept s"
    by (simp_all add: t_def s1)
  from fr have fr': "curr_dual t = curr_dual s" "best_dual t = best_dual s" "alpha t = alpha s"
    "eta_not t = eta_not s"
    by (simp_all add: sps_frame_def s1)
  define a where "a = minus_fin (accept t) (gamma * tau t * product t)"
  have body: "ls_body inst s = t\<lparr>curr_obj := add_negative (reduced_costs t) (sub_obj t), accept := a\<rparr>"
    by (simp add: ls_body_def Let_def t_def s1_def a_def)
  from okt have okt': "length (dual1 t) = num_row inst" "length (dual2 t) = num_row inst"
    "nonneg inst (buf t (curr_dual s))"
    "consistent inst (buf t (curr_dual s)) (reduced_costs t)"
    "sub_obj t = sum_list (buf t (curr_dual s))"
    by (simp_all add: dual_ok_def fr')
  have ob: "add_negative (reduced_costs t) (sub_obj t) =
      objective_spec (buf t (curr_dual s)) (reduced_costs t)"
    by (simp add: okt'(5) objective_spec_add_negative)
  have dd': "\<forall>p\<in>set (dd s). fst p < num_row inst \<and> outside_tol (snd p) \<and>
        0 \<le> buf t (curr_dual s) ! fst p - tau s / 2 * snd p"
    using dds ddt by auto
  show ?thesis
    unfolding body sps_eval_inv_def
    using okt' ob dd' rest e
    by (simp add: fr' eqs sps_eval_inv_def)
qed

lemma ls_body_funpow_eval_inv:
  "wf_instance inst \<Longrightarrow> sps_eval_inv inst s \<Longrightarrow> sps_eval_inv inst ((ls_body inst ^^ k) s)"
  by (induction k) (simp_all add: ls_body_eval_inv)

lemma line_search_funpow:
  assumes "line_search inst s = Some s'"
  shows "\<exists>k. s' = (ls_body inst ^^ k) s \<and> \<not> ls_cond s'"
proof (rule line_search.raw_induct
    [where P = "\<lambda>inst s s'. \<exists>k. s' = (ls_body inst ^^ k) s \<and> \<not> ls_cond s'", OF _ assms])
  fix ls inst s s'
  assume IH: "\<And>s b y. ls s b = Some y \<Longrightarrow> \<exists>k. y = (ls_body s ^^ k) b \<and> \<not> ls_cond y"
    and eq: "(if ls_cond s then ls inst (ls_body inst s) else Some s) = Some s'"
  show "\<exists>k. s' = (ls_body inst ^^ k) s \<and> \<not> ls_cond s'"
  proof (cases "ls_cond s")
    case True
    with eq have "ls inst (ls_body inst s) = Some s'" by simp
    from IH [OF this] obtain k where "s' = (ls_body inst ^^ k) (ls_body inst s)" "\<not> ls_cond s'"
      by blast
    then have "s' = (ls_body inst ^^ Suc k) s \<and> \<not> ls_cond s'"
      by (simp add: funpow_swap1)
    then show ?thesis by blast
  next
    case False
    with eq have "s' = (ls_body inst ^^ 0) s \<and> \<not> ls_cond s'" by simp
    then show ?thesis by blast
  qed
qed

lemma line_search_eval_inv:
  "wf_instance inst \<Longrightarrow> sps_eval_inv inst s \<Longrightarrow> line_search inst s = Some s' \<Longrightarrow>
   sps_eval_inv inst s'"
  using line_search_funpow ls_body_funpow_eval_inv by blast


section \<open>The end of an iteration of the spectral driver\<close>

lemma fold_squares_pos:
  "(\<And>p. p \<in> set ps \<Longrightarrow> snd p \<noteq> 0) \<Longrightarrow> ps \<noteq> [] \<Longrightarrow> 0 \<le> a \<Longrightarrow>
   0 < fold (\<lambda>(i, value) a. a + value * value) ps (a :: real)"
proof (induction ps arbitrary: a)
  case Nil
  then show ?case by simp
next
  case (Cons p ps)
  obtain i v where p: "p = (i, v)" by (cases p)
  have v: "v \<noteq> 0" using Cons.prems(1) [of p] by (simp add: p)
  then have pos: "0 < a + v * v" using Cons.prems(3)
    by (metis add_nonneg_pos not_real_square_gt_zero)
  show ?case
  proof (cases "ps = []")
    case True
    then show ?thesis using pos by (simp add: p)
  next
    case False
    have "0 < fold (\<lambda>(i, value) a. a + value * value) ps (a + v * v)"
      by (rule Cons.IH) (use Cons.prems False pos in auto)
    then show ?thesis by (simp add: p)
  qed
qed

lemma outside_tol_nonzero: "outside_tol v \<Longrightarrow> v \<noteq> 0"
  by (auto simp: outside_tol_def ZERO_TOL_def)

lemma update_alpha_pos:
  assumes "0 < tau s" and "\<forall>p\<in>set (dd s). outside_tol (snd p)"
  shows "0 < alpha (update_alpha itr s)"
proof -
  define deno where "deno = fold (\<lambda>(i, value) a. a + value * real_of_int (old_subg itr s ! i - curr_subg itr s ! i)) (dd s) 0"
  define a where "a = fold (\<lambda>(i, value) a. a + value * value) (dd s) 0"
  have al: "alpha (update_alpha itr s) = (if deno < ZERO_TOL then 1 / 10 else tau s * a / deno)"
    by (simp add: update_alpha_def Let_def deno_def a_def)
  show ?thesis
  proof (cases "deno < ZERO_TOL")
    case True
    then show ?thesis by (simp add: al)
  next
    case False
    then have d: "0 < deno" by (simp add: ZERO_TOL_def)
    have "dd s \<noteq> []"
    proof
      assume "dd s = []"
      then have "deno = 0" by (simp add: deno_def)
      with d show False by simp
    qed
    then have "0 < a"
      unfolding a_def using assms(2) by (intro fold_squares_pos) (auto simp: outside_tol_nonzero)
    then show ?thesis using False d assms(1) by (simp add: al)
  qed
qed

lemma update_alpha_fields:
  "update_alpha itr s = s\<lparr>alpha := alpha (update_alpha itr s)\<rparr>"
  by (simp add: update_alpha_def Let_def)

lemma next_subg_fields:
  "\<exists>g1 g2 b. next_subg inst itr s = s\<lparr>subg1 := g1, subg2 := g2, is_opt := b\<rparr>"
proof (cases "compute_subg_vector_sps inst (reduced_costs s)")
  case (Pair g ret)
  show ?thesis
  proof (cases "itr mod 2 = 0")
    case True
    then have "next_subg inst itr s = s\<lparr>subg1 := subg1 s, subg2 := g, is_opt := ret \<noteq> 0\<rparr>"
      by (simp add: next_subg_def Pair)
    then show ?thesis by blast
  next
    case False
    then have "next_subg inst itr s = s\<lparr>subg1 := g, subg2 := subg2 s, is_opt := ret \<noteq> 0\<rparr>"
      by (simp add: next_subg_def Pair)
    then show ?thesis by blast
  qed
qed

lemma update_best_fields:
  "buf (update_best s) b = buf s b"
  "old_dual (update_best s) = curr_dual s"
  "reduced_costs (update_best s) = reduced_costs s"
  "curr_obj (update_best s) = curr_obj s"
  "dual1 (update_best s) = dual1 s" "dual2 (update_best s) = dual2 s"
  "momentum (update_best s) = momentum s"
  "tau (update_best s) = tau s" "dd (update_best s) = dd s"
  "alpha (update_best s) = alpha s" "eta_not (update_best s) = eta_not s"
  "best_dual s \<noteq> curr_dual s \<Longrightarrow> best_dual (update_best s) \<noteq> curr_dual (update_best s)"
  by (auto simp: update_best_def)

lemma update_best_after_search:
  assumes "sps_eval_inv inst s"
  shows "after_search inst (update_best s)"
  using assms unfolding after_search_def sps_eval_inv_def
  by (simp add: update_best_fields)

lemma next_subg_after_search:
  assumes "after_search inst s"
  shows "after_search inst (next_subg inst itr s)"
proof -
  obtain g1 g2 b where "next_subg inst itr s = s\<lparr>subg1 := g1, subg2 := g2, is_opt := b\<rparr>"
    using next_subg_fields by blast
  then show ?thesis using assms by (simp add: after_search_def)
qed

lemma sps_iteration_inv:
  assumes wf: "wf_instance inst" and h: "sps_head_inv inst s"
    and it: "sps_iteration inst itr s = Inr s'"
  shows "nonneg inst (buf s' (old_dual s'))"
    and "consistent inst (buf s' (old_dual s')) (reduced_costs s')"
    and "\<not> is_opt s' \<Longrightarrow> sps_head_inv inst s'"
proof -
  from it obtain e where ls: "line_search inst (tentative inst itr s) = Some e"
    by (auto simp: sps_iteration_def split: option.splits)
  have ev: "sps_eval_inv inst e"
    using wf tentative_eval_inv [OF wf h] ls by (rule line_search_eval_inv)
  define u where "u = next_subg inst itr (update_best e)"
  have au: "after_search inst u"
    unfolding u_def using ev by (intro next_subg_after_search update_best_after_search)
  have res: "(is_opt u \<and> s' = u) \<or> (\<not> is_opt u \<and> (\<exists>p w j. s' = (update_alpha itr u)\<lparr>past_objs := p, worst_obj := w, worst_obj_idx := j\<rparr>))"
    using it ls by (auto simp: sps_iteration_def u_def Let_def split: option.splits if_splits)
  define v where "v = update_alpha itr u"
  have v: "v = u\<lparr>alpha := alpha v\<rparr>" unfolding v_def by (rule update_alpha_fields)
  have av: "0 < alpha v" unfolding v_def using au by (intro update_alpha_pos) (simp_all add: after_search_def)
  have facts: "nonneg inst (buf s' (old_dual s')) \<and>
     consistent inst (buf s' (old_dual s')) (reduced_costs s') \<and>
     (\<not> is_opt s' \<longrightarrow> sps_head_inv inst s')"
    using res
  proof
    assume "is_opt u \<and> s' = u"
    then show ?thesis using au
      by (simp add: after_search_def)
  next
    assume "\<not> is_opt u \<and> (\<exists>p w j. s' = (update_alpha itr u)\<lparr>past_objs := p, worst_obj := w, worst_obj_idx := j\<rparr>)"
    then obtain p w j where no: "\<not> is_opt u" and s': "s' = v\<lparr>past_objs := p, worst_obj := w, worst_obj_idx := j\<rparr>"
      by (auto simp: v_def)
    have "s' = u\<lparr>alpha := alpha v, past_objs := p, worst_obj := w, worst_obj_idx := j\<rparr>"
      by (subst s', subst v) simp
    then show ?thesis using au av no
      by (simp add: after_search_def sps_head_inv_def)
  qed
  then show "nonneg inst (buf s' (old_dual s'))"
    and "consistent inst (buf s' (old_dual s')) (reduced_costs s')"
    and "\<not> is_opt s' \<Longrightarrow> sps_head_inv inst s'"
    by simp_all
qed

section \<open>The invariant at the head of the main loop of the spectral driver\<close>

lemma cost_share_nonneg:
  "valid_instance inst \<Longrightarrow> c < num_col inst \<Longrightarrow> 0 \<le> cost_share inst c"
  using valid_costs [of inst c] by (simp add: cost_share_def)

lemma init_dual_nonneg:
  assumes v: "valid_instance inst" and i: "i < num_row inst"
  shows "0 \<le> min_value_of_row inst i"
proof -
  have wf: "wf_instance inst" using v by (rule valid_wf)
  have ne: "set (row_cols inst i) \<noteq> {}" using valid_row_first [OF v i] by auto
  have "\<forall>c\<in>set (row_cols inst i). 0 \<le> cost_share inst c"
    using wf_row_cols_bound [OF wf i] cost_share_nonneg [OF v] by blast
  then show ?thesis
    using ne by (simp add: min_value_of_row_Min [OF v i])
qed

lemma fold_squares_sum:
  "fold (\<lambda>v e. e + real_of_int (v * v)) g (e :: real) = e + real_of_int (\<Sum>v\<leftarrow>g. v * v)"
  by (induction g arbitrary: e) auto

lemma sum_squares_ge:
  "x \<in> set g \<Longrightarrow> x \<noteq> 0 \<Longrightarrow> 1 \<le> (\<Sum>v\<leftarrow>g. v * v)" for x :: int
proof (induction g)
  case Nil
  then show ?case by simp
next
  case (Cons a g)
  have nn: "0 \<le> (\<Sum>v\<leftarrow>g. v * v)" by (rule sum_list_nonneg) auto
  have aa: "0 \<le> a * a" by simp
  show ?case
  proof (cases "x = a")
    case True
    with Cons.prems(2) have "0 < a * a" by (simp add: zero_less_mult_iff) linarith
    then show ?thesis using nn by simp
  next
    case False
    with Cons.prems have "1 \<le> (\<Sum>v\<leftarrow>g. v * v)" by (intro Cons.IH) auto
    with aa have "1 \<le> a * a + (\<Sum>v\<leftarrow>g. v * v)" by linarith
    then show ?thesis by simp
  qed
qed

lemma fold_squares_ge:
  "v \<in> set g \<Longrightarrow> v \<noteq> 0 \<Longrightarrow> 1 \<le> fold (\<lambda>v e. e + real_of_int (v * v)) g (0 :: real)"
  using sum_squares_ge [of v g] by (simp only: fold_squares_sum) simp

lemma scan_nonzero_0: "scan_nonzero g = 0 \<Longrightarrow> \<exists>v\<in>set g. v \<noteq> 0"
  by (induction g) (auto split: if_splits)

lemma sps_head_0_inv:
  assumes v: "valid_instance inst" and j: "length junk = num_row inst"
    and h: "sps_head inst junk 0 = Some s"
  shows "sps_head_inv inst s"
proof -
  obtain d rc obj where i: "init_dual_vector inst = (d, rc, obj)"
    by (metis prod_cases3)
  obtain g ret where c: "compute_subg_vector_sps inst rc = (g, ret)"
    by (metis surj_pair)
  note f = init_dual_vector_facts [OF v i]
  from i have dd: "d = map (min_value_of_row inst) [0..<num_row inst]"
    by (auto simp: init_dual_vector_def Let_def)
  have nn: "nonneg inst d"
    using init_dual_nonneg [OF v] by (simp add: nonneg_def dd)
  have co: "consistent inst d rc"
    using f by (simp add: consistent_def)
  have ob: "obj = objective_spec d rc" using f by simp
  from h have no: "ret = 0" and s: "s = sps_start (sps_init inst junk)"
    by (auto simp: sps_init_def i c Let_def split: if_splits)
  show ?thesis
    using nn co ob j no f
    by (simp add: s sps_start_def sps_init_def i c sps_head_inv_def buf_def)
qed

lemma sps_head_inv_all:
  assumes v: "valid_instance inst" and j: "length junk = num_row inst"
  shows "sps_head inst junk n = Some s \<Longrightarrow> sps_head_inv inst s"
proof (induction n arbitrary: s)
  case 0
  then show ?case using v j by (rule sps_head_0_inv [rotated 2])
next
  case (Suc n)
  from Suc.prems obtain t where t: "sps_head inst junk n = Some t"
    and it: "sps_iteration inst n t = Inr s" and no: "\<not> is_opt s"
    by (auto split: option.splits sum.splits if_splits)
  have "sps_head_inv inst t" using t by (rule Suc.IH)
  then show ?case
    using sps_iteration_inv(3) [OF valid_wf [OF v] _ it no] by simp
qed

section \<open>The row loop of the basic driver\<close>

lemma length_buf_store: "length (buf (store b i v s) b') = length (buf s b')"
  by (simp add: buf_store)

lemma basic_row_frame:
  "curr_dual (basic_row inst st i s) = curr_dual s"
  "old_dual (basic_row inst st i s) = old_dual s"
  "best_dual (basic_row inst st i s) = best_dual s"
  "best_obj (basic_row inst st i s) = best_obj s"
  "subg (basic_row inst st i s) = subg s"
  "nrm (basic_row inst st i s) = nrm s"
  "lambda (basic_row inst st i s) = lambda s"
  "counter (basic_row inst st i s) = counter s"
  by (cases "curr_dual s"; simp add: basic_row_def Let_def store_def)+

lemma basic_row_buf:
  assumes "i < length (buf s (curr_dual s))"
  shows "buf (basic_row inst st i s) b =
     (if b = curr_dual s then (buf s b)[i := basic_new s st i] else buf s b)"
  using assms
  by (cases "curr_dual s"; cases "old_dual s"; cases b;
      simp add: basic_row_def Let_def store_def buf_def basic_new_def)

lemma basic_row_reduced_costs:
  assumes "i < length (buf s (curr_dual s))"
  shows "reduced_costs (basic_row inst st i s) =
     (if outside_tol (basic_value s st i)
      then subtract_from_cols inst i (basic_value s st i) (reduced_costs s)
      else reduced_costs s)"
  using assms
  by (cases "curr_dual s"; cases "old_dual s";
      simp add: basic_row_def Let_def store_def buf_def basic_value_def outside_tol_def)

lemma basic_row_curr_obj:
  assumes "i < length (buf s (curr_dual s))"
  shows "curr_obj (basic_row inst st i s) = curr_obj s + basic_new s st i"
  using assms
  by (cases "curr_dual s"; cases "old_dual s";
      simp add: basic_row_def Let_def store_def buf_def basic_new_def)

lemma basic_new_nonneg: "0 \<le> basic_new s st i"
  by (simp add: basic_new_def Let_def)

lemma brow_inv_step:
  assumes i: "i < num_row inst" and inv: "brow_inv inst i s"
  shows "brow_inv inst (Suc i) (basic_row inst st i s)"
proof -
  from inv have len: "length (dual1 s) = num_row inst" "length (dual2 s) = num_row inst"
    and pos: "\<forall>r<i. 0 \<le> buf s (curr_dual s) ! r"
    by (simp_all add: brow_inv_def)
  have lenb: "length (buf s b) = num_row inst" for b
    using len by (cases b) (simp_all add: buf_def)
  have il: "i < length (buf s (curr_dual s))" using i by (simp add: lenb)
  note bb = basic_row_buf [OF il, of inst st]
  have l: "length (dual1 (basic_row inst st i s)) = num_row inst"
    "length (dual2 (basic_row inst st i s)) = num_row inst"
    using bb [of Dual1] bb [of Dual2] len by (auto simp: buf_def split: if_splits)
  have "\<forall>r<Suc i. 0 \<le> buf (basic_row inst st i s) (curr_dual (basic_row inst st i s)) ! r"
    using pos il basic_new_nonneg [of s st i]
    by (auto simp: bb basic_row_frame nth_list_update less_Suc_eq)
  then show ?thesis using l by (simp add: brow_inv_def)
qed

lemma buf_basic_updates [simp]:
  "buf (s\<lparr>subg := z1\<rparr>) b = buf s b"
  "buf (s\<lparr>nrm := z2\<rparr>) b = buf s b"
  "buf (s\<lparr>lambda := z3\<rparr>) b = buf s b"
  "buf (s\<lparr>counter := z4\<rparr>) b = buf s b"
  for s :: basic_state
  by (cases b; simp add: buf_def)+

lemma basic_update_nonneg:
  assumes len: "length (dual1 s) = num_row inst" "length (dual2 s) = num_row inst"
  shows "nonneg inst (buf (basic_update inst ub s) (curr_dual (basic_update inst ub s)))"
    and "length (dual1 (basic_update inst ub s)) = num_row inst"
    and "length (dual2 (basic_update inst ub s)) = num_row inst"
proof -
  define st where "st = lambda s * (105 / 100 * real_of_int ub - curr_obj s) / real_of_int (nrm s)"
  define t where "t = fold (basic_row inst st) [0..<num_row inst] (s\<lparr>curr_obj := 0\<rparr>)"
  have "brow_inv inst (num_row inst) t"
    unfolding t_def
  proof (rule fold_upt_inv)
    show "brow_inv inst 0 (s\<lparr>curr_obj := 0\<rparr>)"
      using len by (simp add: brow_inv_def)
  qed (rule brow_inv_step)
  then have t: "length (dual1 t) = num_row inst" "length (dual2 t) = num_row inst"
    "\<forall>r<num_row inst. 0 \<le> buf t (curr_dual t) ! r"
    by (simp_all add: brow_inv_def)
  have lenb: "length (buf t b) = num_row inst" for b
    using t by (cases b) (simp_all add: buf_def)
  have u: "basic_update inst ub s = t\<lparr>curr_obj := add_negative (reduced_costs t) (curr_obj t)\<rparr>"
    by (simp add: basic_update_def Let_def t_def st_def)
  show "nonneg inst (buf (basic_update inst ub s) (curr_dual (basic_update inst ub s)))"
    using t lenb by (simp add: u nonneg_def)
  show "length (dual1 (basic_update inst ub s)) = num_row inst"
    "length (dual2 (basic_update inst ub s)) = num_row inst"
    using t by (simp_all add: u)
qed

section \<open>Both drivers keep the dual vector non-negative\<close>

lemma basic_best_fields:
  "buf (basic_best s) b = buf s b"
  "old_dual (basic_best s) = curr_dual s"
  "dual1 (basic_best s) = dual1 s" "dual2 (basic_best s) = dual2 s"
  "reduced_costs (basic_best s) = reduced_costs s"
  "curr_obj (basic_best s) = curr_obj s"
  by (auto simp: basic_best_def Let_def)

lemma basic_iteration_inv:
  assumes "basic_head_inv inst s"
  shows "basic_head_inv inst (basic_iteration inst ub s)"
proof -
  obtain g n where c: "compute_subg_vector_basic inst (reduced_costs s) (buf s (old_dual s)) = (g, n)"
    by (metis surj_pair)
  define s1 where "s1 = s\<lparr>subg := g, nrm := n\<rparr>"
  from assms have l1: "length (dual1 s1) = num_row inst" "length (dual2 s1) = num_row inst"
    and n1: "nonneg inst (buf s1 (old_dual s1))"
    by (simp_all add: basic_head_inv_def s1_def)
  have it: "basic_iteration inst ub s = (if n < 0 then s1 else basic_best (basic_update inst ub s1))"
    by (simp add: basic_iteration_def c s1_def)
  show ?thesis
  proof (cases "n < 0")
    case True
    then show ?thesis using l1 n1 by (simp add: it basic_head_inv_def)
  next
    case False
    then show ?thesis
      using basic_update_nonneg [OF l1, of ub]
      by (simp add: it basic_head_inv_def basic_best_fields)
  qed
qed

lemma basic_head_inv_all:
  assumes v: "valid_instance inst" and j: "length junk = num_row inst"
  shows "basic_head inst ub junk n = Some s \<Longrightarrow> basic_head_inv inst s"
proof (induction n arbitrary: s)
  case 0
  obtain d rc obj where i: "init_dual_vector inst = (d, rc, obj)"
    by (metis prod_cases3)
  from i have dd: "d = map (min_value_of_row inst) [0..<num_row inst]"
    by (auto simp: init_dual_vector_def Let_def)
  have nn: "nonneg inst d"
    using init_dual_nonneg [OF v] by (simp add: nonneg_def dd)
  from 0 have "s = basic_init inst junk" by simp
  then show ?case
    using nn j by (simp add: basic_init_def i basic_head_inv_def buf_def nonneg_def)
next
  case (Suc n)
  from Suc.prems obtain t where t: "basic_head inst ub junk n = Some t"
    and s: "s = basic_iteration inst ub t"
    by (auto simp: Let_def split: option.splits if_splits)
  show ?case
    unfolding s using Suc.IH [OF t] by (rule basic_iteration_inv)
qed

text \<open>
  C4: for every valid instance and every run of either driver, the dual vector is
  component-wise non-negative after every iteration. In the spectral driver this holds at
  the head of every iteration, after the tentative momentum step (clipped at zero), after
  every pass of the line search (every partial rollback), and in the state that an
  iteration leaves behind; in the basic driver at the head of every iteration and in the
  state that an iteration leaves behind (after the projection of negative components to
  zero). The vector in question is the one the pointer \<open>old_dual\<close> names between
  iterations and the one \<open>curr_dual\<close> names inside an iteration.
\<close>

theorem dual_vector_nonneg:
  assumes "valid_instance inst" and "length junk = num_row inst"
  shows "(sps_head inst junk n = Some s \<longrightarrow>
            nonneg inst (buf s (old_dual s)) \<and>
            (\<forall>k. nonneg inst (buf ((ls_body inst ^^ k) (tentative inst n s))
                                 (curr_dual ((ls_body inst ^^ k) (tentative inst n s))))) \<and>
            (\<forall>s'. sps_iteration inst n s = Inr s' \<longrightarrow> nonneg inst (buf s' (old_dual s')))) \<and>
         (basic_head inst upperbound junk n = Some t \<longrightarrow>
            nonneg inst (buf t (old_dual t)) \<and>
            nonneg inst (buf (basic_iteration inst upperbound t)
                             (old_dual (basic_iteration inst upperbound t))))"
proof (intro conjI impI allI)
  have wf: "wf_instance inst" using assms(1) by (rule valid_wf)
  {
    assume h: "sps_head inst junk n = Some s"
    have hi: "sps_head_inv inst s" using assms h by (rule sps_head_inv_all)
    then show "nonneg inst (buf s (old_dual s))" by (simp add: sps_head_inv_def)
    fix k
    have "sps_eval_inv inst ((ls_body inst ^^ k) (tentative inst n s))"
      using wf tentative_eval_inv [OF wf hi] by (rule ls_body_funpow_eval_inv)
    then show "nonneg inst (buf ((ls_body inst ^^ k) (tentative inst n s))
                                 (curr_dual ((ls_body inst ^^ k) (tentative inst n s))))"
      by (simp add: sps_eval_inv_def)
  next
    fix s'
    assume h: "sps_head inst junk n = Some s" and it: "sps_iteration inst n s = Inr s'"
    have hi: "sps_head_inv inst s" using assms h by (rule sps_head_inv_all)
    show "nonneg inst (buf s' (old_dual s'))"
      using wf hi it by (rule sps_iteration_inv(1))
  next
    assume h: "basic_head inst upperbound junk n = Some t"
    have hi: "basic_head_inv inst t" using assms h by (rule basic_head_inv_all)
    then show "nonneg inst (buf t (old_dual t))" by (simp add: basic_head_inv_def)
    from basic_iteration_inv [OF hi, of upperbound]
    show "nonneg inst (buf (basic_iteration inst upperbound t)
                             (old_dual (basic_iteration inst upperbound t)))"
      by (simp add: basic_head_inv_def)
  }
qed

lemma sps_ex_valid: "valid_instance sps_ex"
  by code_simp

lemma basic_ex_valid: "valid_instance basic_ex"
  by code_simp

lemma sps_ex_counts: "num_row sps_ex = 5" "num_col sps_ex = 3"
  by (simp_all add: sps_ex_def)

lemma sps_ex_sps_init: "sps_init sps_ex junk = sps_ex_init junk"
  unfolding sps_ex_init_def by code_simp

lemma sps_ex_head_0:
  "sps_head sps_ex junk 0 = Some ((sps_ex_init junk)\<lparr>eta_not := Fin (sqrt 2), alpha := 1 / 10\<rparr>)"
  by (simp add: sps_ex_sps_init Let_def)
    (simp add: sps_ex_init_def sps_start_def int_mult_def wrap_int_def ieee_sqrt_def)

lemma basic_ex_head_0: "basic_head sps_ex ub junk 0 = Some (basic_init sps_ex junk)"
  by simp

theorem dual_vector_nonneg_witness:
  "valid_instance sps_ex \<and> length [7, 7, 7, 7, 7 :: real] = num_row sps_ex \<and>
   sps_head sps_ex [7, 7, 7, 7, 7] 0 =
     Some ((sps_ex_init [7, 7, 7, 7, 7])\<lparr>eta_not := Fin (sqrt 2), alpha := 1 / 10\<rparr>) \<and>
   nonneg sps_ex [7 / 5, 7 / 5, 1, 1, 1] \<and>
   basic_head sps_ex 11 [7, 7, 7, 7, 7] 0 = Some (basic_init sps_ex [7, 7, 7, 7, 7]) \<and>
   nonneg sps_ex (buf (basic_init sps_ex [7, 7, 7, 7, 7])
                      (old_dual (basic_init sps_ex [7, 7, 7, 7, 7])))"
proof -
  have l: "length [7, 7, 7, 7, 7 :: real] = num_row sps_ex"
    by (simp add: sps_ex_counts)
  note t = dual_vector_nonneg [OF sps_ex_valid l, of 0
      "(sps_ex_init [7, 7, 7, 7, 7])\<lparr>eta_not := Fin (sqrt 2), alpha := 1 / 10\<rparr>" 11
      "basic_init sps_ex [7, 7, 7, 7, 7]"]
  have 1: "nonneg sps_ex [7 / 5, 7 / 5, 1, 1, 1]"
    using t sps_ex_head_0 [of "[7, 7, 7, 7, 7]"] by (simp add: sps_ex_init_def buf_def)
  have 2: "nonneg sps_ex (buf (basic_init sps_ex [7, 7, 7, 7, 7])
                      (old_dual (basic_init sps_ex [7, 7, 7, 7, 7])))"
    using t basic_ex_head_0 [of 11 "[7, 7, 7, 7, 7]"] by blast
  show ?thesis
    using sps_ex_valid l sps_ex_head_0 [of "[7, 7, 7, 7, 7]"] basic_ex_head_0 [of 11 "[7, 7, 7, 7, 7]"] 1 2
    by blast
qed

section \<open>Runs of the two drivers that stop at the optimum\<close>

lemma powr_at_zero: "real 0 powr (11 / 10) = 0"
  by simp

lemma start_search_zero:
  assumes "eta_not s = ieee_sqrt x"
  shows "accept (start_search 0 s) = (if 0 < x then MInf else NaN)"
    and "tau (start_search 0 s) = 1"
    and "curr_obj (start_search 0 s) = curr_obj s"
  using assms by (simp_all add: start_search_def Let_def ieee_div_def ieee_sqrt_def)

lemma line_search_stop: "\<not> ls_cond s \<Longrightarrow> line_search inst s = Some s"
  by (subst line_search.simps) simp

lemma first_search:
  assumes "eta_not s = ieee_sqrt x"
  shows "accept (tentative inst 0 s) = (if 0 < x then MInf else NaN)"
    and "\<not> ls_cond (tentative inst 0 s)"
    and "line_search inst (tentative inst 0 s) = Some (tentative inst 0 s)"
proof -
  have "eta_not (tentative_step inst 0 s) = eta_not s"
    using tentative_step_frame [of s inst 0] by (simp add: sps_frame_def)
  with assms show a: "accept (tentative inst 0 s) = (if 0 < x then MInf else NaN)"
    by (simp add: tentative_def start_search_zero)
  then show "\<not> ls_cond (tentative inst 0 s)"
    by (simp add: ls_cond_def)
  then show "line_search inst (tentative inst 0 s) = Some (tentative inst 0 s)"
    by (rule line_search_stop)
qed

lemma sps_ex_tentative_step:
  "tentative_step sps_ex 0 ((sps_ex_init junk)\<lparr>eta_not := Fin e, alpha := 1 / 10\<rparr>) =
   (sps_ex_init junk)\<lparr>eta_not := Fin e, alpha := 1 / 10, dual1 := [3 / 2, 3 / 2, 1, 1, 1],
      reduced_costs := [0, 1, 0], curr_obj := 6, momentum := [1 / 10, 1 / 10, 0, 0, 0],
      dd := [(0, 1 / 10), (1, 1 / 10)], sub_obj := 6, product := 1 / 50\<rparr>"
  unfolding sps_ex_init_def by code_simp

lemma sps_ex_tentative:
  "tentative sps_ex 0 ((sps_ex_init junk)\<lparr>eta_not := Fin (sqrt 2), alpha := 1 / 10\<rparr>) =
   (sps_ex_init junk)\<lparr>eta_not := Fin (sqrt 2), alpha := 1 / 10, dual1 := [3 / 2, 3 / 2, 1, 1, 1],
      reduced_costs := [0, 1, 0], curr_obj := 6, momentum := [1 / 10, 1 / 10, 0, 0, 0],
      dd := [(0, 1 / 10), (1, 1 / 10)], sub_obj := 6, product := 1 / 5, tau := 1,
      accept := MInf\<rparr>"
  by (simp add: tentative_def sps_ex_tentative_step start_search_def Let_def ieee_div_def)

lemma sps_ex_after:
  "next_subg sps_ex 0 (update_best
     ((sps_ex_init junk)\<lparr>eta_not := Fin e, alpha := 1 / 10, dual1 := [3 / 2, 3 / 2, 1, 1, 1],
      reduced_costs := [0, 1, 0], curr_obj := 6, momentum := [1 / 10, 1 / 10, 0, 0, 0],
      dd := [(0, 1 / 10), (1, 1 / 10)], sub_obj := 6, product := 1 / 5, tau := 1,
      accept := MInf\<rparr>)) = sps_ex_final e junk"
  unfolding sps_ex_init_def sps_ex_final_def by code_simp

lemma sps_ex_iteration:
  "sps_iteration sps_ex 0 ((sps_ex_init junk)\<lparr>eta_not := Fin (sqrt 2), alpha := 1 / 10\<rparr>) =
   Inr (sps_ex_final (sqrt 2) junk)"
proof -
  let ?s = "(sps_ex_init junk)\<lparr>eta_not := Fin (sqrt 2), alpha := 1 / 10\<rparr>"
  have ls: "line_search sps_ex (tentative sps_ex 0 ?s) = Some (tentative sps_ex 0 ?s)"
    by (rule first_search(3) [where x = 2]) (simp add: ieee_sqrt_def)
  have op: "is_opt (sps_ex_final (sqrt 2) junk)" by (simp add: sps_ex_final_def)
  show ?thesis
    unfolding sps_iteration_def ls
    by (simp only: sps_ex_tentative sps_ex_after Let_def op if_True option.case)
qed

lemma sps_ex_run: "sps_final sps_ex 1 junk = Inr (sps_ex_final (sqrt 2) junk)"
proof -
  have op: "is_opt (sps_ex_final (sqrt 2) junk)" by (simp add: sps_ex_final_def)
  have no: "\<not> is_opt (sps_ex_init junk)" by (simp add: sps_ex_init_def)
  have st: "sps_start (sps_ex_init junk) = (sps_ex_init junk)\<lparr>eta_not := Fin (sqrt 2), alpha := 1 / 10\<rparr>"
    by (simp add: sps_ex_init_def sps_start_def int_mult_def wrap_int_def ieee_sqrt_def)
  have "sps_loop sps_ex (Suc 0) 0 ((sps_ex_init junk)\<lparr>eta_not := Fin (sqrt 2), alpha := 1 / 10\<rparr>)
        = Inr (sps_ex_final (sqrt 2) junk)"
    by (simp add: sps_ex_iteration op)
  then show ?thesis
    by (simp add: sps_final_def sps_ex_sps_init no st)
qed

lemma sps_ex_result: "spectral_projected_subgradient sps_ex 1 junk = Inr (6, junk)"
  by (simp add: spectral_projected_subgradient_def sps_ex_run sps_cleanup_def)
     (simp add: sps_ex_final_def buf_def)

lemma basic_ex_run: "basic_final basic_ex 2 11 junk = basic_ex_final junk"
  unfolding basic_ex_final_def by code_simp

lemma basic_ex_result: "basic_subgradient basic_ex 2 11 junk = (11, junk)"
  by code_simp

text \<open>
  C2 says that a driver that stops because the subgradient vector is zero stores the final,
  optimal dual vector, also when that vector had just been recorded as the new best by the
  swap of the buffers. The code at two such runs: on \<open>sps_ex\<close> the spectral driver finds the
  optimum \<open>[3/2, 3/2, 1, 1, 1]\<close> in its first iteration, which improves the best objective
  from 29/5 to 6; on \<open>basic_ex\<close> with upper bound 11 the basic driver finds the optimum
  \<open>[121/10, 1]\<close> in its first iteration (objective 11 after 10) and detects it at the head of
  the second. In both runs the swap has moved \<open>curr_dual\<close> to the other buffer, which was
  never written, and the cleanup \<open>best_dual = curr_dual\<close> stores that buffer: the returned
  objective is the optimal one, the stored vector is the initial content of \<open>dual2\<close>.
\<close>

theorem optimal_exit_returns_other_buffer:
  "sps_final sps_ex 1 junk = Inr (sps_ex_final (sqrt 2) junk) \<and>
   is_opt (sps_ex_final (sqrt 2) junk) \<and>
   buf (sps_ex_final (sqrt 2) junk) (old_dual (sps_ex_final (sqrt 2) junk)) = [3 / 2, 3 / 2, 1, 1, 1] \<and>
   compute_reduced_costs sps_ex [3 / 2, 3 / 2, 1, 1, 1] = reduced_costs (sps_ex_final (sqrt 2) junk) \<and>
   spectral_projected_subgradient sps_ex 1 junk = Inr (6, junk) \<and>
   basic_final basic_ex 2 11 junk = basic_ex_final junk \<and>
   nrm (basic_ex_final junk) < 0 \<and>
   buf (basic_ex_final junk) (old_dual (basic_ex_final junk)) = [121 / 10, 1] \<and>
   compute_reduced_costs basic_ex [121 / 10, 1] = reduced_costs (basic_ex_final junk) \<and>
   basic_subgradient basic_ex 2 11 junk = (11, junk)"
proof -
  have 1: "compute_reduced_costs sps_ex [3 / 2, 3 / 2, 1, 1, 1] = [0, 1, 0]" by code_simp
  have 2: "compute_reduced_costs basic_ex [121 / 10, 1] = [0, 49 / 10, - (21 / 10)]" by code_simp
  show ?thesis
    using sps_ex_run [of junk] sps_ex_result [of junk] basic_ex_run [of junk]
      basic_ex_result [of junk]
    by (simp add: 1 2) (simp add: sps_ex_final_def basic_ex_final_def buf_def)
qed

lemma fold_wrapped_squares:
  assumes "\<forall>v\<in>set g. \<bar>v\<bar> \<le> 46340"
  shows "fold (\<lambda>v e. e + real_of_int (int_mult v v)) g (e0 :: real) =
         fold (\<lambda>v e. e + real_of_int (v * v)) g e0"
  using assms by (induction g arbitrary: e0) (simp_all add: int_mult_square)

lemma count_subg_small:
  assumes wf: "wf_instance inst" and nr: "narrow_rows inst"
  shows "\<forall>v\<in>set (count_subg inst rc). \<bar>v\<bar> \<le> 46340"
proof
  fix v assume "v \<in> set (count_subg inst rc)"
  then obtain r where r: "r < num_row inst" and v: "v = count_subg inst rc ! r"
    by (auto simp: in_set_conv_nth length_count_subg)
  have "length (row_cols inst r) \<le> 46341"
    using nr r by (simp add: narrow_rows_def list_all_upt)
  with cover_below_le [OF wf r, of rc] have "cover_below inst rc r \<le> 46341" by simp
  then show "\<bar>v\<bar> \<le> 46340" by (simp add: v count_subg_nth [OF r])
qed

text \<open>
  The first iteration in every run of the spectral driver that enters the loop: \<open>eta_not\<close>
  is a square root, the divisor \<open>pow(0, 1.1)\<close> is 0, so the threshold \<open>accept\<close> is minus
  infinity or NaN, the loop condition \<open>curr_obj < accept\<close> is false and the tentative step
  is accepted as it is, with \<open>tau = 1\<close> and no rollback, whatever its objective. Where no
  row has more than 46341 entries, \<open>eta_not\<close> is the Euclidean norm of a non-zero integer
  vector and at least 1, \<open>eta\<close> is plus infinity and \<open>accept\<close> minus infinity.
\<close>

lemma first_iteration_accepts:
  assumes "sps_head inst junk 0 = Some s"
  shows "real 0 powr (11 / 10) = 0 \<and>
         (accept (tentative inst 0 s) = MInf \<or> accept (tentative inst 0 s) = NaN) \<and>
         \<not> ls_cond (tentative inst 0 s) \<and>
         line_search inst (tentative inst 0 s) = Some (tentative inst 0 s) \<and>
         tau (tentative inst 0 s) = 1 \<and>
         dd (tentative inst 0 s) = dd (tentative_step inst 0 s) \<and>
         buf (tentative inst 0 s) = buf (tentative_step inst 0 s)"
    and "wf_instance inst \<Longrightarrow> narrow_rows inst \<Longrightarrow>
         (\<exists>e. eta_not s = Fin e \<and> 1 \<le> e) \<and>
         ieee_quot (eta_not s) (real 0 powr (11 / 10)) = PInf \<and>
         accept (tentative inst 0 s) = MInf"
proof -
  obtain d rc obj where i: "init_dual_vector inst = (d, rc, obj)"
    by (metis prod_cases3)
  obtain g ret where c: "compute_subg_vector_sps inst rc = (g, ret)"
    by (metis surj_pair)
  from assms have no: "ret = 0" and s: "s = sps_start (sps_init inst junk)"
    by (auto simp: sps_init_def i c Let_def split: if_splits)
  from c have g: "g = count_subg inst rc" and "ret = scan_nonzero g"
    by (auto simp: compute_subg_vector_sps_def Let_def)
  with no obtain x where x: "x \<in> set g" "x \<noteq> 0" using scan_nonzero_0 by metis
  define q where "q = fold (\<lambda>v e. e + real_of_int (int_mult v v)) g (0 :: real)"
  have e: "eta_not s = ieee_sqrt q"
    by (simp add: s sps_start_def sps_init_def i c q_def)
  have t: "tau (tentative inst 0 s) = 1"
    by (simp add: tentative_def start_search_def Let_def)
  have "dd (tentative inst 0 s) = dd (tentative_step inst 0 s)"
    and "buf (tentative inst 0 s) = buf (tentative_step inst 0 s)"
    by (simp_all add: tentative_def start_search_def Let_def fun_eq_iff)
  with t first_search [OF e, of inst]
  show "real 0 powr (11 / 10) = 0 \<and>
         (accept (tentative inst 0 s) = MInf \<or> accept (tentative inst 0 s) = NaN) \<and>
         \<not> ls_cond (tentative inst 0 s) \<and>
         line_search inst (tentative inst 0 s) = Some (tentative inst 0 s) \<and>
         tau (tentative inst 0 s) = 1 \<and>
         dd (tentative inst 0 s) = dd (tentative_step inst 0 s) \<and>
         buf (tentative inst 0 s) = buf (tentative_step inst 0 s)"
    by simp
  show "(\<exists>e. eta_not s = Fin e \<and> 1 \<le> e) \<and>
         ieee_quot (eta_not s) (real 0 powr (11 / 10)) = PInf \<and>
         accept (tentative inst 0 s) = MInf"
    if wf: "wf_instance inst" and nr: "narrow_rows inst"
  proof -
    have "q = fold (\<lambda>v e. e + real_of_int (v * v)) g 0"
      unfolding q_def g by (rule fold_wrapped_squares) (rule count_subg_small [OF wf nr])
    then have q: "1 \<le> q" using fold_squares_ge [OF x] by (simp only:)
    then have "eta_not s = Fin (sqrt q)" "1 \<le> sqrt q"
      by (simp_all add: e ieee_sqrt_def)
    moreover from q have "0 < q" by simp
    ultimately show ?thesis
      using first_search(1) [OF e, of inst] by (simp add: ieee_div_def)
  qed
qed

section \<open>The window of the last objective values\<close>

lemma set_take_rev:
  "set (take k (rev h)) = (\<lambda>t. h ! t) ` {t. t < length h \<and> length h - t \<le> k}"
proof -
  have "take k (rev h) = take (min k (length h)) (rev h)"
    by (simp add: min_def)
  then have "set (take k (rev h)) = (\<lambda>i. rev h ! i) ` {0..<min k (length h)}"
    by (simp only: nth_image [of "min k (length h)" "rev h", simplified])
  also have "{0..<min k (length h)} = {i. i < min k (length h)}" by auto
  finally have "set (take k (rev h)) = (\<lambda>i. rev h ! i) ` {i. i < min k (length h)}" .
  also have "\<dots> = (\<lambda>t. h ! t) ` {t. t < length h \<and> length h - t \<le> k}"
  proof (intro set_eqI iffI)
    fix x assume "x \<in> (\<lambda>i. rev h ! i) ` {i. i < min k (length h)}"
    then obtain i where i: "i < k" "i < length h" and x: "x = rev h ! i" by auto
    then have "x = h ! (length h - Suc i)" by (simp add: rev_nth)
    moreover have "length h - Suc i < length h" "length h - (length h - Suc i) \<le> k"
      using i by auto
    ultimately show "x \<in> (\<lambda>t. h ! t) ` {t. t < length h \<and> length h - t \<le> k}" by blast
  next
    fix x assume "x \<in> (\<lambda>t. h ! t) ` {t. t < length h \<and> length h - t \<le> k}"
    then obtain t where t: "t < length h" "length h - t \<le> k" and x: "x = h ! t" by auto
    let ?i = "length h - Suc t"
    have "?i < min k (length h)" using t by auto
    moreover have "rev h ! ?i = h ! t" using t by (simp add: rev_nth)
    ultimately show "x \<in> (\<lambda>i. rev h ! i) ` {i. i < min k (length h)}"
      using x by (metis (mono_tags, lifting) imageI mem_Collect_eq)
  qed
  finally show ?thesis .
qed

lemma window_of_snoc: "window_of (h @ [v]) = v # take (M - 1) (rev h)"
  by (simp add: window_of_def M_def)

lemma Min_insert_absorb:
  "finite S \<Longrightarrow> x \<le> w \<Longrightarrow> Min (insert w (insert x S)) = Min (insert x S)"
  for x :: "'a :: linorder"
proof -
  assume f: "finite S" and le: "x \<le> w"
  have "Min (insert w (insert x S)) = min w (Min (insert x S))"
    using f by (intro Min_insert) auto
  moreover have "Min (insert x S) \<le> x" using f by (intro Min_le) auto
  ultimately show ?thesis using le by (simp add: min_def) (metis order.trans order.antisym)
qed

lemma rescan_eq: "rescan past w idx = fold (rescan_step past) (rev [0..<M]) (Some (w, idx))"
  by (simp add: rescan_def rescan_step_def [abs_def])

lemma rescan_fold:
  assumes "\<forall>j\<in>set js. \<exists>x. past ! j = Some x"
  shows "\<exists>w' j'. fold (rescan_step past) js (Some (w, idx)) = Some (w', j') \<and>
         w' = Min (insert w {x. \<exists>j\<in>set js. past ! j = Some x}) \<and>
         (w' = w \<and> j' = idx \<or> j' \<in> set js \<and> past ! j' = Some w')"
  using assms
proof (induction js arbitrary: w idx)
  case Nil
  then show ?case by simp
next
  case (Cons j js)
  from Cons.prems obtain x where x: "past ! j = Some x" by auto
  let ?S = "{x. \<exists>j\<in>set js. past ! j = Some x}"
  have fin: "finite ?S"
  proof -
    have "?S \<subseteq> (\<lambda>j. the (past ! j)) ` set js" by force
    then show ?thesis by (rule finite_subset) simp
  qed
  have S: "{y. \<exists>k\<in>set (j # js). past ! k = Some y} = insert x ?S"
    using x by auto
  from Cons.prems have rest: "\<forall>j\<in>set js. \<exists>x. past ! j = Some x" by simp
  show ?case
  proof (cases "x < w")
    case True
    from Cons.IH [OF rest, of x j] obtain w' j' where
      r: "fold (rescan_step past) js (Some (x, j)) = Some (w', j')"
      and w': "w' = Min (insert x ?S)"
      and j': "w' = x \<and> j' = j \<or> j' \<in> set js \<and> past ! j' = Some w'"
      by blast
    have m: "Min (insert w (insert x ?S)) = Min (insert x ?S)"
      by (rule Min_insert_absorb [OF fin]) (use True in simp)
    have st: "rescan_step past j (Some (w, idx)) = Some (x, j)"
      using x True by (simp add: rescan_step_def)
    have "fold (rescan_step past) (j # js) (Some (w, idx)) = Some (w', j')"
      by (simp add: st r)
    moreover have "w' = Min (insert w {y. \<exists>k\<in>set (j # js). past ! k = Some y})"
      unfolding S m by (rule w')
    moreover have "w' = w \<and> j' = idx \<or> j' \<in> set (j # js) \<and> past ! j' = Some w'"
      using j' x by auto
    ultimately show ?thesis by blast
  next
    case False
    from Cons.IH [OF rest, of w idx] obtain w' j' where
      r: "fold (rescan_step past) js (Some (w, idx)) = Some (w', j')"
      and w': "w' = Min (insert w ?S)"
      and j': "w' = w \<and> j' = idx \<or> j' \<in> set js \<and> past ! j' = Some w'"
      by blast
    have "Min (insert x (insert w ?S)) = Min (insert w ?S)"
      by (rule Min_insert_absorb [OF fin]) (use False in simp)
    then have m: "Min (insert w (insert x ?S)) = Min (insert w ?S)"
      by (simp add: insert_commute)
    have st: "rescan_step past j (Some (w, idx)) = Some (w, idx)"
      using x False by (simp add: rescan_step_def)
    have "fold (rescan_step past) (j # js) (Some (w, idx)) = Some (w', j')"
      by (simp add: st r)
    moreover have "w' = Min (insert w {y. \<exists>k\<in>set (j # js). past ! k = Some y})"
      unfolding S m by (rule w')
    moreover have "w' = w \<and> j' = idx \<or> j' \<in> set (j # js) \<and> past ! j' = Some w'"
      using j' by auto
    ultimately show ?thesis by blast
  qed
qed

lemma M_pos: "0 < M" "2 \<le> M"
  by (simp_all add: M_def)

lemma update_worst_inv:
  assumes inv: "window_inv h (past, worst, idx)" and n: "length h = Suc n"
  shows "\<exists>w'. update_worst n v (past, worst, idx) = Some w' \<and> window_inv (h @ [v]) w'"
proof -
  define L where "L = length h"
  define i where "i = L mod M"
  define past' where "past' = past[i := Some v]"
  define A where "A = (\<lambda>t. h ! t) ` {t. t < L \<and> L - t \<le> M - 1}"
  have L1: "1 \<le> L" using n by (simp add: L_def)
  have iM: "i < M" unfolding i_def using M_pos by simp
  from inv have lp: "length past = M"
    and cs: "\<forall>j<M. (past ! j = None) = (L \<le> j)"
    and b: "\<forall>t<L. L - t \<le> M \<longrightarrow> past ! (t mod M) = Some (h ! t)"
    and b2: "\<forall>j<M. \<forall>x. past ! j = Some x \<longrightarrow> (\<exists>t<L. L - t \<le> M \<and> t mod M = j \<and> h ! t = x)"
    and idx: "idx < M" "past ! idx = Some worst"
    and w: "worst = Min (set (window_of h))"
    by (simp_all add: window_inv_def L_def)
  have W: "set (window_of h) = (\<lambda>t. h ! t) ` {t. t < L \<and> L - t \<le> M}"
    by (simp add: window_of_def set_take_rev L_def)
  have W': "set (window_of (h @ [v])) = insert v A"
    by (simp add: window_of_snoc set_take_rev A_def L_def)
  have finA: "finite A" unfolding A_def by simp
  have AW: "A \<subseteq> set (window_of h)" unfolding W A_def by auto
  have finW: "finite (set (window_of h))" by simp
  have wle: "worst \<le> y" if "y \<in> A" for y
    using that AW finW unfolding w by (intro Min_le) auto
  have lp': "length past' = M" by (simp add: past'_def lp)
  have pi: "past' ! i = Some v" using iM lp by (simp add: past'_def)
  have po: "past' ! j = past ! j" if "j \<noteq> i" for j
    using that by (simp add: past'_def)
  have evict: "L - t \<le> M - 1" if "t < L" "L - t \<le> M" "t mod M \<noteq> i" for t
  proof (rule ccontr)
    assume "\<not> L - t \<le> M - 1"
    with that have "L = t + M" by linarith
    then have "L mod M = t mod M" by simp
    with that(3) show False by (simp add: i_def)
  qed
  have K: "x \<in> A" if "j < M" "j \<noteq> i" "past ! j = Some x" for j x
  proof -
    from b2 that obtain t where t: "t < L" "L - t \<le> M" "t mod M = j" "h ! t = x" by blast
    then have "L - t \<le> M - 1" using that(2) by (intro evict) auto
    with t show ?thesis unfolding A_def by blast
  qed
  have cs': "\<forall>j<M. (past' ! j = None) = (length (h @ [v]) \<le> j)"
  proof (intro allI impI)
    fix j assume j: "j < M"
    show "(past' ! j = None) = (length (h @ [v]) \<le> j)"
    proof (cases "j = i")
      case True
      have "\<not> Suc L \<le> L mod M"
        by (metis Suc_n_not_le_n le_trans mod_less_eq_dividend)
      then show ?thesis using True pi by (simp add: i_def flip: L_def)
    next
      case False
      have "(L \<le> j) = (Suc L \<le> j)"
      proof
        assume Lj: "L \<le> j"
        then have "L < M" using j by simp
        then have "i = L" by (simp add: i_def)
        with False Lj show "Suc L \<le> j" by simp
      qed simp
      then show ?thesis using cs j False by (simp add: po flip: L_def)
    qed
  qed
  have other: "t mod M \<noteq> i" if "t < L" "L - t \<le> M - 1" for t
  proof
    assume "t mod M = i"
    then have "L mod M = t mod M" by (simp add: i_def)
    then have "M dvd L - t"
      using that(1) by (simp add: mod_eq_dvd_iff_nat)
    then have "M \<le> L - t" using that(1) by (intro dvd_imp_le) simp_all
    with that(2) M_pos show False by simp
  qed
  have b': "\<forall>t<length (h @ [v]). length (h @ [v]) - t \<le> M \<longrightarrow>
      past' ! (t mod M) = Some ((h @ [v]) ! t)"
  proof (intro allI impI)
    fix t assume t: "t < length (h @ [v])" "length (h @ [v]) - t \<le> M"
    show "past' ! (t mod M) = Some ((h @ [v]) ! t)"
    proof (cases "t = L")
      case True
      then show ?thesis using pi by (simp add: i_def L_def)
    next
      case False
      with t have tL: "t < L" "L - t \<le> M - 1" by (simp_all add: L_def)
      then have "t mod M \<noteq> i" by (rule other)
      then have "past' ! (t mod M) = past ! (t mod M)" by (rule po)
      also have "\<dots> = Some (h ! t)" using b tL by simp
      finally show ?thesis using tL(1) by (simp add: nth_append L_def)
    qed
  qed
  have b2': "\<forall>j<M. \<forall>x. past' ! j = Some x \<longrightarrow>
      (\<exists>t<length (h @ [v]). length (h @ [v]) - t \<le> M \<and> t mod M = j \<and> (h @ [v]) ! t = x)"
  proof (intro allI impI)
    fix j x assume j: "j < M" and x: "past' ! j = Some x"
    show "\<exists>t<length (h @ [v]). length (h @ [v]) - t \<le> M \<and> t mod M = j \<and> (h @ [v]) ! t = x"
    proof (cases "j = i")
      case True
      with x pi have "x = v" by simp
      then have "L < length (h @ [v]) \<and> length (h @ [v]) - L \<le> M \<and> L mod M = j \<and> (h @ [v]) ! L = x"
        using True M_pos by (simp add: L_def i_def)
      then show ?thesis by blast
    next
      case False
      with x have "past ! j = Some x" by (simp add: po)
      with b2 j obtain t where t: "t < L" "L - t \<le> M" "t mod M = j" "h ! t = x" by blast
      then have "L - t \<le> M - 1" using False by (intro evict) auto
      then have "t < length (h @ [v]) \<and> length (h @ [v]) - t \<le> M \<and> t mod M = j \<and> (h @ [v]) ! t = x"
        using t M_pos by (simp add: L_def nth_append)
      then show ?thesis by blast
    qed
  qed
  have Ane: "h ! (L - 1) \<in> A"
    unfolding A_def using L1 M_pos by (intro image_eqI [where x = "L - 1"]) auto
  have res: "\<exists>w j. update_worst n v (past, worst, idx) = Some (past', w, j) \<and>
      j < M \<and> past' ! j = Some w \<and> w = Min (insert v A)"
  proof -
    have "n + 1 = L" using n by (simp add: L_def)
    then have i': "(n + 1) mod M = i" by (simp only: i_def)
    have uw: "update_worst n v (past, worst, idx) =
      (if i = idx then
         (if v \<le> worst then Some (past', v, idx)
          else (case rescan past' v idx of None \<Rightarrow> None | Some (w, j) \<Rightarrow> Some (past', w, j)))
       else if v < worst then Some (past', v, i)
       else Some (past', worst, idx))"
      by (simp only: update_worst_def Let_def prod.case i' past'_def)
    consider (c1) "i = idx" "v \<le> worst" | (c2) "i = idx" "\<not> v \<le> worst"
      | (c3) "i \<noteq> idx" "v < worst" | (c4) "i \<noteq> idx" "\<not> v < worst" by blast
    then show ?thesis
    proof cases
      case c1
      have "v \<le> y" if "y \<in> A" for y using wle [OF that] c1(2) by linarith
      then have "Min (insert v A) = v"
        using finA by (intro Min_eqI) auto
      then show ?thesis
        using c1 idx pi by (simp add: uw)
    next
      case c3
      have "v \<le> y" if "y \<in> A" for y using wle [OF that] c3(2) by linarith
      then have "Min (insert v A) = v"
        using finA by (intro Min_eqI) auto
      then show ?thesis
        using c3 iM pi by (simp add: uw)
    next
      case c4
      have "worst \<in> A" using K [OF idx(1) _ idx(2)] c4(1) by auto
      moreover have "worst \<le> y" if "y \<in> insert v A" for y
        using that wle c4(2) by auto
      ultimately have "Min (insert v A) = worst"
        using finA by (intro Min_eqI) auto
      moreover have "past' ! idx = Some worst" using c4(1) idx by (simp add: po)
      ultimately show ?thesis
        using c4 idx by (simp add: uw)
    next
      case c2
      have all: "\<forall>j\<in>set (rev [0..<M]). \<exists>x. past' ! j = Some x"
      proof
        fix j assume "j \<in> set (rev [0..<M])"
        then have j: "j < M" by simp
        have "\<not> L \<le> idx" using cs idx by auto
        moreover have "L mod M = idx" using c2(1) by (simp add: i_def)
        ultimately have "M \<le> L" by (metis mod_less not_le_imp_less order_refl)
        then have "\<not> length (h @ [v]) \<le> j" using j by (simp add: L_def)
        with cs' j show "\<exists>x. past' ! j = Some x" by auto
      qed
      from rescan_fold [OF all, of v idx] obtain w' j' where
        r: "fold (rescan_step past') (rev [0..<M]) (Some (v, idx)) = Some (w', j')"
        and w': "w' = Min (insert v {x. \<exists>j\<in>set (rev [0..<M]). past' ! j = Some x})"
        and j': "w' = v \<and> j' = idx \<or> j' \<in> set (rev [0..<M]) \<and> past' ! j' = Some w'"
        by blast
      have slots: "{x. \<exists>j\<in>set (rev [0..<M]). past' ! j = Some x} = insert v A"
      proof (intro set_eqI iffI)
        fix x assume "x \<in> {x. \<exists>j\<in>set (rev [0..<M]). past' ! j = Some x}"
        then obtain j where j: "j < M" "past' ! j = Some x" by auto
        show "x \<in> insert v A"
        proof (cases "j = i")
          case True
          with j pi show ?thesis by simp
        next
          case False
          then show ?thesis using K [OF j(1) False] j(2) by (simp add: po)
        qed
      next
        fix x assume "x \<in> insert v A"
        then consider "x = v" | "x \<in> A" by blast
        then show "x \<in> {x. \<exists>j\<in>set (rev [0..<M]). past' ! j = Some x}"
        proof cases
          case 1
          then show ?thesis using pi iM by auto
        next
          case 2
          then obtain t where t: "t < L" "L - t \<le> M - 1" "x = h ! t" unfolding A_def by auto
          then have "past' ! (t mod M) = Some x"
            using b other [OF t(1,2)] by (simp add: po)
          moreover have "t mod M < M" using M_pos by simp
          ultimately show ?thesis by auto
        qed
      qed
      have w'': "w' = Min (insert v A)" using w' unfolding slots by simp
      have "j' < M \<and> past' ! j' = Some w'"
        using j' idx pi c2(1) by auto
      then show ?thesis
        using c2 r w'' by (simp add: uw rescan_eq)
    qed
  qed
  then obtain w j where r: "update_worst n v (past, worst, idx) = Some (past', w, j)"
    and j: "j < M" "past' ! j = Some w" and w: "w = Min (insert v A)" by blast
  have "window_inv (h @ [v]) (past', w, j)"
    unfolding window_inv_def using lp' cs' b' b2' j w by (simp add: W')
  with r show ?thesis by blast
qed

section \<open>The window in a run of the spectral driver\<close>

lemma sps_frame_trans: "sps_frame s t \<Longrightarrow> sps_frame t u \<Longrightarrow> sps_frame s u"
  by (simp add: sps_frame_def)

lemma sps_frame_window: "sps_frame s t \<Longrightarrow> window_fields t = window_fields s"
  by (simp add: sps_frame_def window_fields_def)

lemma fold_rollback_frame: "sps_frame s (fold (rollback_row inst) ps s)"
proof (rule fold_inv)
  show "sps_frame s s" by (rule sps_frame_refl)
next
  fix p t assume "sps_frame s t"
  then show "sps_frame s (rollback_row inst p t)"
    using rollback_row_frame(1) [of t inst p] by (rule sps_frame_trans)
qed

lemma ls_body_frame: "sps_frame s (ls_body inst s)"
proof -
  have "sps_frame (s\<lparr>tau := tau s * (1 / 2)\<rparr>)
     (fold (rollback_row inst) (dd (s\<lparr>tau := tau s * (1 / 2)\<rparr>)) (s\<lparr>tau := tau s * (1 / 2)\<rparr>))"
    by (rule fold_rollback_frame)
  then show ?thesis
    by (simp add: ls_body_def Let_def sps_frame_def)
qed

lemma ls_body_funpow_frame: "sps_frame s ((ls_body inst ^^ k) s)"
proof (induction k)
  case 0
  then show ?case by (simp add: sps_frame_refl)
next
  case (Suc k)
  then show ?case
    using ls_body_frame [of "(ls_body inst ^^ k) s" inst] by (simp add: sps_frame_trans)
qed

lemma tentative_frame: "sps_frame s (tentative inst itr s)"
  using tentative_step_frame [of s inst itr]
  by (simp add: tentative_def start_search_def Let_def sps_frame_def)

lemma line_search_frame:
  assumes "line_search inst (tentative inst itr s) = Some e"
  shows "window_fields e = window_fields s"
proof -
  from line_search_funpow [OF assms] obtain k where "e = (ls_body inst ^^ k) (tentative inst itr s)"
    by blast
  then have "sps_frame (tentative inst itr s) e" by (simp add: ls_body_funpow_frame)
  with tentative_frame [of s inst itr] have "sps_frame s e" by (rule sps_frame_trans)
  then show ?thesis by (rule sps_frame_window)
qed

lemma end_of_iteration_window:
  "window_fields (update_alpha itr (next_subg inst itr (update_best e))) = window_fields e"
  "curr_obj (update_alpha itr (next_subg inst itr (update_best e))) = curr_obj e"
proof -
  obtain g1 g2 b where n: "next_subg inst itr (update_best e) = (update_best e)\<lparr>subg1 := g1, subg2 := g2, is_opt := b\<rparr>"
    using next_subg_fields by blast
  show "window_fields (update_alpha itr (next_subg inst itr (update_best e))) = window_fields e"
    "curr_obj (update_alpha itr (next_subg inst itr (update_best e))) = curr_obj e"
    unfolding n by (simp_all add: update_alpha_def Let_def window_fields_def update_best_def)
qed

lemma sps_iteration_window:
  assumes it: "sps_iteration inst n s = Inr s'" and no: "\<not> is_opt s'"
  shows "update_worst n (curr_obj s') (window_fields s) = Some (window_fields s')"
proof -
  from it obtain e where ls: "line_search inst (tentative inst n s) = Some e"
    by (auto simp: sps_iteration_def split: option.splits)
  define u where "u = next_subg inst n (update_best e)"
  define v where "v = update_alpha n u"
  have wf: "window_fields v = window_fields s" and co: "curr_obj v = curr_obj e"
    unfolding v_def u_def using end_of_iteration_window [of n inst e] line_search_frame [OF ls]
    by simp_all
  have "is_opt u \<and> s' = u \<or> \<not> is_opt u \<and>
    (\<exists>p w j. update_worst n (curr_obj v) (past_objs v, worst_obj v, worst_obj_idx v) = Some (p, w, j) \<and>
       s' = v\<lparr>past_objs := p, worst_obj := w, worst_obj_idx := j\<rparr>)"
    using it ls by (auto simp: sps_iteration_def u_def v_def Let_def split: option.splits if_splits)
  with no obtain p w j where
    r: "update_worst n (curr_obj v) (window_fields v) = Some (p, w, j)"
    and s': "s' = v\<lparr>past_objs := p, worst_obj := w, worst_obj_idx := j\<rparr>"
    by (auto simp: window_fields_def)
  from wf have "past_objs v = past_objs s" "worst_obj v = worst_obj s" "worst_obj_idx v = worst_obj_idx s"
    by (simp_all add: window_fields_def)
  moreover have "curr_obj s' = curr_obj v" by (simp add: s')
  ultimately show ?thesis
    using r by (simp add: s' window_fields_def)
qed

lemma sps_iteration_no_uninit:
  assumes "window_inv h (window_fields s)" and "length h = Suc n"
  shows "sps_iteration inst n s \<noteq> Inl Uninitialised_read"
proof
  assume a: "sps_iteration inst n s = Inl Uninitialised_read"
  then obtain e where ls: "line_search inst (tentative inst n s) = Some e"
    by (auto simp: sps_iteration_def split: option.splits)
  define v where "v = update_alpha n (next_subg inst n (update_best e))"
  have wf: "window_fields v = window_fields s"
    unfolding v_def using end_of_iteration_window [of n inst e] line_search_frame [OF ls]
    by simp
  from a ls have "update_worst n (curr_obj v) (window_fields v) = None"
    by (auto simp: sps_iteration_def v_def Let_def window_fields_def split: option.splits if_splits)
  moreover obtain p w j where "window_fields s = (p, w, j)" by (metis prod_cases3)
  ultimately show False
    using update_worst_inv [of h p w j n "curr_obj v"] assms by (simp add: wf)
qed

lemma sps_head_Suc:
  assumes "sps_head inst junk (Suc n) = Some s'"
  obtains s where "sps_head inst junk n = Some s" and "sps_iteration inst n s = Inr s'"
    and "\<not> is_opt s'"
  using assms by (auto split: option.splits sum.splits if_splits)

lemma sps_objs_Suc:
  "sps_objs inst junk (Suc n) = sps_objs inst junk n @ [head_obj inst junk (Suc n)]"
  by (simp add: sps_objs_def)

lemma sps_head_window:
  "sps_head inst junk n = Some s \<Longrightarrow> window_inv (sps_objs inst junk n) (window_fields s)"
proof (induction n arbitrary: s)
  case 0
  obtain d rc obj where i: "init_dual_vector inst = (d, rc, obj)"
    by (metis prod_cases3)
  obtain g ret where c: "compute_subg_vector_sps inst rc = (g, ret)"
    by (metis surj_pair)
  from 0 have s: "s = sps_start (sps_init inst junk)"
    by (auto simp: Let_def split: if_splits)
  have w: "window_fields s = ((replicate M None)[0 := Some obj], obj, 0)"
    and o: "curr_obj s = obj"
    by (simp_all add: s sps_start_def sps_init_def i c window_fields_def)
  have h: "sps_objs inst junk 0 = [obj]"
    using 0 o by (simp add: sps_objs_def head_obj_def)
  have 1: "length ((replicate M None)[0 := Some obj]) = M" by simp
  have 2: "\<forall>j<M. ((replicate M None)[0 := Some obj] ! j = None) = (length [obj] \<le> j)"
    by (simp add: nth_list_update)
  have 3: "\<forall>t<length [obj]. length [obj] - t \<le> M \<longrightarrow>
      (replicate M None)[0 := Some obj] ! (t mod M) = Some ([obj] ! t)"
    using M_pos by simp
  have 4: "\<forall>j<M. \<forall>x. (replicate M None)[0 := Some obj] ! j = Some x \<longrightarrow>
      (\<exists>t<length [obj]. length [obj] - t \<le> M \<and> t mod M = j \<and> [obj] ! t = x)"
  proof (intro allI impI)
    fix j x assume "j < M" and "(replicate M None)[0 := Some obj] ! j = Some x"
    then have "j = 0 \<and> x = obj" by (simp add: nth_list_update split: if_splits)
    then show "\<exists>t<length [obj]. length [obj] - t \<le> M \<and> t mod M = j \<and> [obj] ! t = x"
      using M_pos by simp
  qed
  have 5: "(replicate M None)[0 := Some obj] ! 0 = Some obj" using M_pos by simp
  have 6: "obj = Min (set (window_of [obj]))" using M_pos by (simp add: window_of_def)
  show ?case
    unfolding w h window_inv_def prod.case using 1 2 3 4 5 6 M_pos by blast
next
  case (Suc n)
  from Suc.prems obtain t where t: "sps_head inst junk n = Some t"
    and it: "sps_iteration inst n t = Inr s" and no: "\<not> is_opt s"
    by (rule sps_head_Suc)
  obtain p w j where f: "window_fields t = (p, w, j)" by (metis prod_cases3)
  have inv: "window_inv (sps_objs inst junk n) (p, w, j)"
    using Suc.IH [OF t] by (simp add: f)
  have len: "length (sps_objs inst junk n) = Suc n" by (simp add: sps_objs_def)
  from update_worst_inv [OF inv len, of "curr_obj s"] sps_iteration_window [OF it no]
  have "window_inv (sps_objs inst junk n @ [curr_obj s]) (window_fields s)"
    by (auto simp: f)
  moreover have "head_obj inst junk (Suc n) = curr_obj s"
    using Suc.prems by (simp add: head_obj_def)
  ultimately show ?case by (simp add: sps_objs_Suc)
qed

text \<open>
  C7: in every run of the spectral driver, at the head of every iteration \<open>n\<close> that the run
  reaches, \<open>worst_obj\<close> is the minimum of the window of the most recent objective values
  (the last \<open>M = 10\<close> of the initial objective and the objectives accepted by the iterations
  so far, or all of them while there are fewer than 10), the slot \<open>worst_obj_idx\<close> of the
  ring buffer holds it, and the update at the end of the iteration, whose scan over the
  whole buffer runs only when the slot being overwritten is \<open>worst_obj_idx\<close> and the new
  value is larger, never reads a slot that has not been written.
\<close>

theorem worst_obj_window_minimum:
  assumes "sps_head inst junk n = Some s"
  shows "worst_obj s = Min (set (window_of (sps_objs inst junk n))) \<and>
         window_of (sps_objs inst junk n) =
           take M (rev (map (head_obj inst junk) [0..<Suc n])) \<and>
         worst_obj_idx s < M \<and>
         past_objs s ! worst_obj_idx s = Some (worst_obj s) \<and>
         sps_iteration inst n s \<noteq> Inl Uninitialised_read"
proof -
  have inv: "window_inv (sps_objs inst junk n) (window_fields s)"
    using assms by (rule sps_head_window)
  have len: "length (sps_objs inst junk n) = Suc n" by (simp add: sps_objs_def)
  have "sps_iteration inst n s \<noteq> Inl Uninitialised_read"
    using inv len by (rule sps_iteration_no_uninit)
  then show ?thesis
    using inv by (simp add: window_inv_def window_fields_def window_of_def sps_objs_def)
qed

section \<open>What the loader rejects and what it leaves behind\<close>



























text \<open>
  What \<open>atoi\<close> makes of tokens outside the range of \<open>int\<close>, and three files with such
  tokens: a column index that \<open>atoi\<close> reads as 1 is stored, the index \<open>INT_MIN\<close> is not
  rejected, since \<open>atoi(token) - 1\<close> is then the largest \<open>int\<close>, and two negative row sizes
  whose sum wraps around to 0 are loaded.
\<close>

lemma atoi_examples:
  "atoi ''4294967297'' = 1" "atoi ''-4294967295'' = 1" "atoi ''99999999999999999999'' = - 1"
  "atoi ''-2147483648'' = - (2 ^ 31)" "atoi '' +12x'' = 12" "atoi ''x'' = 0"
  by code_simp+

lemma wrapped_files:
  "load_scp_instance False (lines_file [''1 1'', ''1'', ''1'', ''-4294967295'']) =
     Ok \<lparr> num_col = 1, num_row = 1, costs = [1], col_wise_a = [0], col_wise_idx = [0, 1],
          row_wise_a = [0], row_wise_idx = [0, 1], col_sizes = [1], row_sizes = [1] \<rparr>"
  "load_scp_instance False (lines_file [''1 1'', ''1'', ''1'', ''-2147483648'']) = Undefined"
  "load_scp_instance False
     (lines_file [''3 2'', ''1 1'', ''-2147483648'', ''-2147483648'', ''2'', ''1 2'']) =
     Ok \<lparr> num_col = 2, num_row = 3, costs = [1, 1], col_wise_a = [2, 2],
          col_wise_idx = [0, 1, 2], row_wise_a = [0, 1], row_wise_idx = [0, 0, 0, 2],
          col_sizes = [1, 1], row_sizes = [- 2147483648, - 2147483648, 2] \<rparr>"
  by code_simp+




section \<open>A run of the basic driver that leaves the reduced costs behind\<close>

lemma two_ones_valid: "valid_instance two_ones"
  by code_simp

lemma two_ones_lists:
  "[0..<num_col two_ones] = [0, 1]" "[0..<num_row two_ones] = [0]"
  "col_rows two_ones 0 = [0]" "col_rows two_ones 1 = [0]" "row_cols two_ones 0 = [0, 1]"
  "col_rows two_ones (Suc 0) = [0]" "num_row two_ones = 1"
  by code_simp+

lemma two_ones_subg:
  assumes "\<not> (r < tol14 \<and> x < tol14)"
  shows "compute_subg_vector_basic two_ones [r, r] [x] = ([if r < tol14 then - 1 else 1], 1)"
  using assms
  by (simp add: compute_subg_vector_basic_def count_subg_def decr_rows_def two_ones_lists
      clamp_step_def int_mult_def wrap_int_def)

lemma two_ones_row:
  assumes "curr_dual s = Dual1" "old_dual s = Dual1" "dual1 s = [x]" "reduced_costs s = [r, r]"
    "subg s = [g]"
  shows "basic_row two_ones st 0 s =
    (let c = x + st * real_of_int g; v = (if c < 0 then - x else st * real_of_int g) in
     s\<lparr>dual1 := [if c < 0 then 0 else c],
       reduced_costs := (if v < - ZERO_TOL \<or> ZERO_TOL < v then [r - v, r - v] else [r, r]),
       curr_obj := curr_obj s + (if c < 0 then 0 else c)\<rparr>)"
  using assms
  by (simp add: basic_row_def Let_def store_def buf_def subtract_from_cols_def two_ones_lists)

lemma one_row_iteration:
  assumes t: "tracks n s x"
  defines "x' \<equiv> one_row_step (lambda s) x"
  defines "s' \<equiv> basic_iteration two_ones 1 s"
  shows "nrm s' = 1" and "dual1 s' = [x']" and "old_dual s' = Dual1"
    and "ZERO_TOL < \<bar>x' - x\<bar> \<Longrightarrow> tracks (Suc n) s' x'"
    and "\<not> ZERO_TOL < \<bar>x' - x\<bar> \<Longrightarrow> reduced_costs s' = [1 - x, 1 - x]"
proof -
  define g :: int where "g = (if 1 - x < tol14 then - 1 else 1)"
  define st where "st = lambda s * (105 / 100 - (1 - \<bar>x - 1\<bar>))"
  define c where "c = x + st * real_of_int g"
  define v where "v = (if c < 0 then - x else st * real_of_int g)"
  define s0 where "s0 = s\<lparr>subg := [g], nrm := 1\<rparr>"
  from t have f: "curr_dual s = Dual1" "old_dual s = Dual1" "best_dual s = Dual2" "dual1 s = [x]"
    "reduced_costs s = [1 - x, 1 - x]" "curr_obj s = 1 - \<bar>x - 1\<bar>" "best_obj s = 1"
    "lambda s = 2 * (1 / 2) ^ (n div 11)" "counter s = int (n mod 11)"
    by (simp_all add: tracks_def)
  have "\<not> (1 - x < tol14 \<and> x < tol14)" by (auto simp: tol14_def)
  then have sg: "compute_subg_vector_basic two_ones (reduced_costs s) (buf s (old_dual s)) = ([g], 1)"
    by (simp add: f buf_def two_ones_subg g_def)
  have x': "x' = (if c < 0 then 0 else c)"
    by (simp add: x'_def one_row_step_def Let_def c_def st_def g_def)
  have vx: "v = x' - x" by (simp add: v_def x' c_def)
  define rc' where "rc' = (if v < - ZERO_TOL \<or> ZERO_TOL < v then [1 - x - v, 1 - x - v]
    else [1 - x, 1 - x])"
  have ss: "lambda s0 * (105 / 100 * real_of_int 1 - curr_obj s0) / real_of_int (nrm s0) = st"
    by (simp add: s0_def st_def f(6))
  have row: "basic_row two_ones st 0 (s0\<lparr>curr_obj := 0\<rparr>) =
      s0\<lparr>dual1 := [x'], reduced_costs := rc', curr_obj := x'\<rparr>"
    using two_ones_row [of "s0\<lparr>curr_obj := 0\<rparr>" x "1 - x" g st]
    by (simp add: s0_def f(1,2,4,5) Let_def c_def [symmetric] v_def [symmetric] x' rc'_def)
  have "basic_update two_ones 1 s0 =
      (s0\<lparr>dual1 := [x'], reduced_costs := rc', curr_obj := x'\<rparr>)
        \<lparr>curr_obj := add_negative
           (reduced_costs (s0\<lparr>dual1 := [x'], reduced_costs := rc', curr_obj := x'\<rparr>))
           (curr_obj (s0\<lparr>dual1 := [x'], reduced_costs := rc', curr_obj := x'\<rparr>))\<rparr>"
    by (simp only: basic_update_def Let_def two_ones_lists(2) ss fold_simps id_apply o_apply row)
  then have up: "basic_update two_ones 1 s0 =
      s0\<lparr>dual1 := [x'], reduced_costs := rc', curr_obj := add_negative rc' x'\<rparr>"
    by simp
  have it: "s' = basic_best (s0\<lparr>dual1 := [x'], reduced_costs := rc',
      curr_obj := add_negative rc' x'\<rparr>)"
    by (simp add: s'_def basic_iteration_def sg Let_def s0_def [symmetric] up)
  show "nrm s' = 1" "dual1 s' = [x']" "old_dual s' = Dual1"
    by (simp_all add: it basic_best_def Let_def s0_def f)
  show "reduced_costs s' = [1 - x, 1 - x]" if "\<not> ZERO_TOL < \<bar>x' - x\<bar>"
  proof -
    from that have "rc' = [1 - x, 1 - x]" by (auto simp: rc'_def vx)
    then show ?thesis by (simp add: it basic_best_def Let_def s0_def f)
  qed
  show "tracks (Suc n) s' x'" if "ZERO_TOL < \<bar>x' - x\<bar>"
  proof -
    from that have rc: "rc' = [1 - x', 1 - x']" by (auto simp: rc'_def vx)
    have ob: "add_negative [1 - x', 1 - x'] x' = 1 - \<bar>x' - 1\<bar>"
      by (simp add: add_negative_def)
    have dm: "Suc n div 11 = (if n mod 11 = 10 then Suc (n div 11) else n div 11)"
      "Suc n mod 11 = (if n mod 11 = 10 then 0 else Suc (n mod 11))"
      by (simp_all add: div_Suc mod_Suc)
    have lt: "n mod 11 \<noteq> 10 \<Longrightarrow> \<not> 10 \<le> n mod 11"
      using mod_less_divisor [of 11 n] by linarith
    show ?thesis
      unfolding tracks_def it
      by (simp add: basic_best_def Let_def s0_def f counter_limit_def dm rc ob lt)
  qed
qed

lemma head_tracks:
  assumes "\<forall>k<n. ZERO_TOL < \<bar>x_seq (Suc k) - x_seq k\<bar>"
  shows "\<exists>s. basic_head two_ones 1 junk n = Some s \<and> tracks n s (x_seq n)"
  using assms
proof (induction n)
  case 0
  have "init_dual_vector two_ones = ([1], [0, 0], 1)" by code_simp
  then show ?case by (simp add: basic_init_def tracks_def)
next
  case (Suc n)
  then obtain s where h: "basic_head two_ones 1 junk n = Some s" and t: "tracks n s (x_seq n)"
    by auto
  from t have l: "lambda s = 2 * (1 / 2) ^ (n div 11)" by (simp add: tracks_def)
  from Suc.prems have "ZERO_TOL < \<bar>x_seq (Suc n) - x_seq n\<bar>" by simp
  with one_row_iteration(1,4) [OF t] show ?case
    by (simp add: h l Let_def)
qed

lemma x_seq_nonneg: "0 \<le> x_seq n"
  by (cases n) (simp_all add: one_row_step_def Let_def)

lemma one_row_step_moves:
  assumes "0 \<le> x" and "(1 / 2) ^ 35 \<le> l"
  shows "ZERO_TOL < \<bar>one_row_step l x - x\<bar>"
proof -
  have z: "ZERO_TOL < (1 / 2) ^ 35 * (1 / 20)" by (simp add: ZERO_TOL_def power_one_over)
  have "(0::real) < (1 / 2) ^ 35" by simp
  with assms(2) have lp: "0 < l" by linarith
  have m: "(1 / 2) ^ 35 * (1 / 20) \<le> l * (1 / 20 + \<bar>x - 1\<bar>)"
    using assms(2) lp by (intro mult_mono) simp_all
  show ?thesis
  proof (cases "1 - x < tol14")
    case True
    then have x: "1 / 2 < x" by (simp add: tol14_def)
    show ?thesis
    proof (cases "x + l * (105 / 100 - (1 - \<bar>x - 1\<bar>)) * - 1 < 0")
      case neg: True
      then have "one_row_step l x = 0" using True by (simp add: one_row_step_def Let_def)
      with x show ?thesis by (simp add: ZERO_TOL_def)
    next
      case False
      then have "one_row_step l x = x - l * (1 / 20 + \<bar>x - 1\<bar>)"
        using True by (simp add: one_row_step_def Let_def algebra_simps)
      with z m show ?thesis by simp
    qed
  next
    case False
    have "0 \<le> l * (1 / 20 + \<bar>x - 1\<bar>)" using lp by simp
    then have "one_row_step l x = x + l * (1 / 20 + \<bar>x - 1\<bar>)"
      using False assms(1) by (simp add: one_row_step_def Let_def algebra_simps)
    with z m show ?thesis by simp
  qed
qed

lemma one_row_step_first:
  "\<bar>one_row_step 1 x - 1\<bar> \<le> 51 / 1000"
  by (simp add: one_row_step_def Let_def tol14_def abs_if)

lemma one_row_step_bound:
  assumes l: "0 < l" "l \<le> 1" and b: "\<bar>x - 1\<bar> \<le> B" "B \<le> 9 / 20"
  shows "\<bar>one_row_step l x - 1\<bar> \<le> max (l / 20 + 2 * tol14) ((1 - l) * B)"
proof -
  define u where "u = x - 1"
  have x: "x = 1 + u" by (simp add: u_def)
  from b have u: "\<bar>u\<bar> \<le> B" by (simp add: u_def)
  have lu: "l * \<bar>u\<bar> \<le> 1 * B" using l u by (intro mult_mono) simp_all
  have lB: "(1 - l) * \<bar>u\<bar> \<le> (1 - l) * B" using l u by (intro mult_left_mono) simp_all
  have c: "\<not> 1 + u + l * (1 / 20 + \<bar>u\<bar>) * g < 0" if "g = 1 \<or> g = - 1" for g :: real
  proof -
    define p where "p = l * (1 / 20 + \<bar>u\<bar>)"
    have "p \<le> 1 * (1 / 20 + B)" unfolding p_def using l u by (intro mult_mono) simp_all
    moreover have "0 \<le> p" unfolding p_def using l by simp
    moreover have "- B \<le> u" using u by simp
    ultimately have "\<not> 1 + u + p * g < 0" using that b(2) by auto
    then show ?thesis by (simp add: p_def)
  qed
  define a where "a = (1 - l) * \<bar>u\<bar>"
  define bb where "bb = (1 - l) * B"
  have a: "0 \<le> a" "a \<le> bb" using l lB by (simp_all add: a_def bb_def)
  have t: "(0::real) < tol14" by (simp add: tol14_def)
  show ?thesis
    unfolding bb_def [symmetric]
  proof (cases "1 - x < tol14")
    case True
    then have g: "- tol14 < u" by (simp add: u_def)
    have s: "one_row_step l x - 1 = u - l * (1 / 20 + \<bar>u\<bar>)"
      using True c [of "- 1"] by (simp add: one_row_step_def Let_def x)
    show "\<bar>one_row_step l x - 1\<bar> \<le> max (l / 20 + 2 * tol14) bb"
    proof (cases "0 \<le> u")
      case True
      then have "one_row_step l x - 1 = a - l / 20"
        by (simp add: s a_def algebra_simps)
      with a l t show ?thesis by (simp add: abs_if max_def)
    next
      case False
      then have e: "one_row_step l x - 1 = (1 + l) * u - l / 20"
        by (simp add: s algebra_simps)
      define w where "w = (1 + l) * u"
      have "(1 + l) * (- tol14) \<le> w" unfolding w_def using g l by (intro mult_left_mono) simp_all
      moreover have "(1 + l) * tol14 \<le> 2 * tol14" using l t by simp
      moreover have "w \<le> 0" unfolding w_def using False l by (simp add: mult_nonneg_nonpos)
      ultimately have "\<bar>w - l / 20\<bar> \<le> l / 20 + 2 * tol14"
        using l by (simp add: abs_if)
      then show ?thesis by (simp add: e w_def)
    qed
  next
    case False
    then have g: "u \<le> - tol14" by (simp add: u_def)
    with t have neg: "u < 0" by linarith
    have s: "one_row_step l x - 1 = u + l * (1 / 20 + \<bar>u\<bar>)"
      using False c [of 1] by (simp add: one_row_step_def Let_def x)
    from neg have "one_row_step l x - 1 = l / 20 - a"
      by (simp add: s a_def algebra_simps)
    with a l t show "\<bar>one_row_step l x - 1\<bar> \<le> max (l / 20 + 2 * tol14) bb"
      by (simp add: abs_if max_def)
  qed
qed

lemma one_row_step_size:
  assumes "0 < l" "l \<le> 1" "\<bar>x - 1\<bar> \<le> 3 / 200"
  shows "\<bar>one_row_step l x - x\<bar> = l * (1 / 20 + \<bar>x - 1\<bar>)"
proof -
  define p where "p = l * (1 / 20 + \<bar>x - 1\<bar>)"
  have "p \<le> 1 * (1 / 20 + 3 / 200)" unfolding p_def using assms by (intro mult_mono) simp_all
  moreover have "0 \<le> p" unfolding p_def using assms by simp
  moreover have "one_row_step l x = (let c = x + p * (if 1 - x < tol14 then - 1 else 1) in
      if c < 0 then 0 else c)"
    by (simp add: one_row_step_def p_def Let_def)
  ultimately have "\<bar>one_row_step l x - x\<bar> = p"
    using assms(3) by (auto simp: Let_def abs_if split: if_splits)
  then show ?thesis by (simp add: p_def)
qed

lemma bound_persists:
  assumes "\<bar>x_seq N - 1\<bar> \<le> B" and "N \<le> n"
    and "2 * (1 / 2) ^ (N div 11) / 20 + 2 * tol14 \<le> B" and "1 \<le> N div 11" and "B \<le> 9 / 20"
  shows "\<bar>x_seq n - 1\<bar> \<le> B"
  using assms(2)
proof (induction n rule: dec_induct)
  case base
  then show ?case by (rule assms(1))
next
  case (step n)
  define a :: real where "a = (1 / 2) ^ (n div 11)"
  define b :: real where "b = (1 / 2) ^ (N div 11)"
  define l :: real where "l = 2 * a"
  have "N div 11 \<le> n div 11" using step.hyps(1) by (rule div_le_mono)
  then have p: "a \<le> b" unfolding a_def b_def
    by (intro power_decreasing) simp_all
  have "b \<le> (1 / 2) ^ 1" unfolding b_def
    using assms(4) by (intro power_decreasing) simp_all
  then have q: "b \<le> 1 / 2" by simp
  have r: "0 < a" by (simp add: a_def)
  have "2 * b / 20 + 2 * tol14 \<le> B" using assms(3) by (simp add: b_def)
  with p q r have l: "0 < l" "l \<le> 1" "l / 20 + 2 * tol14 \<le> B"
    unfolding l_def by linarith+
  have "0 \<le> B" using assms(1) by linarith
  then have "(1 - l) * B \<le> 1 * B" using l by (intro mult_right_mono) simp_all
  with one_row_step_bound [OF l(1,2) step.IH assms(5)] l(3)
  show ?case by (simp add: l_def a_def)
qed

lemma x_seq_numeral: "x_seq (Suc n) = one_row_step (2 * (1 / 2) ^ (n div 11)) (x_seq n)"
  by simp

lemma x_seq_close:
  assumes "35 \<le> n"
  shows "\<bar>x_seq n - 1\<bar> \<le> 3 / 200"
proof -
  have "x_seq 12 = one_row_step 1 (x_seq 11)"
    using x_seq_numeral [of 11] by simp
  then have "\<bar>x_seq 12 - 1\<bar> \<le> 51 / 1000"
    using one_row_step_first [of "x_seq 11"] by simp
  then have "\<bar>x_seq 22 - 1\<bar> \<le> 51 / 1000"
    by (rule bound_persists) (simp_all add: tol14_def power_one_over)
  have e: "x_seq 23 = one_row_step (1 / 2) (x_seq 22)"
    "x_seq 34 = one_row_step (1 / 4) (x_seq 33)" "x_seq 35 = one_row_step (1 / 4) (x_seq 34)"
    using x_seq_numeral [of 22] x_seq_numeral [of 33] x_seq_numeral [of 34]
    by (simp_all add: power_one_over)
  from one_row_step_bound [OF _ _ \<open>\<bar>x_seq 22 - 1\<bar> \<le> 51 / 1000\<close>, of "1 / 2"]
  have "\<bar>x_seq 23 - 1\<bar> \<le> 26 / 1000"
    unfolding e by (simp add: tol14_def)
  then have "\<bar>x_seq 33 - 1\<bar> \<le> 26 / 1000"
    by (rule bound_persists) (simp_all add: tol14_def power_one_over)
  from one_row_step_bound [OF _ _ this, of "1 / 4"]
  have "\<bar>x_seq 34 - 1\<bar> \<le> 39 / 2000"
    unfolding e by (simp add: tol14_def)
  from one_row_step_bound [OF _ _ this, of "1 / 4"]
  have "\<bar>x_seq 35 - 1\<bar> \<le> 3 / 200"
    unfolding e by (simp add: tol14_def)
  then show ?thesis
    using assms by (rule bound_persists) (simp_all add: tol14_def power_one_over)
qed

lemma x_seq_moves:
  assumes "k \<le> 406"
  shows "ZERO_TOL < \<bar>x_seq (Suc k) - x_seq k\<bar>"
proof -
  have "k div 11 \<le> 406 div 11" using assms by (rule div_le_mono)
  then have "k div 11 \<le> 36" by simp
  then have "(1 / 2 :: real) ^ 36 \<le> (1 / 2) ^ (k div 11)"
    by (intro power_decreasing) simp_all
  moreover have "(1 / 2 :: real) ^ 35 = 2 * (1 / 2) ^ 36" by (simp add: power_one_over)
  ultimately have "(1 / 2 :: real) ^ 35 \<le> 2 * (1 / 2) ^ (k div 11)" by linarith
  from one_row_step_moves [OF x_seq_nonneg this] show ?thesis by simp
qed

lemma x_seq_stalls:
  "x_seq 408 \<noteq> x_seq 407" "\<not> ZERO_TOL < \<bar>x_seq 408 - x_seq 407\<bar>"
proof -
  have c: "\<bar>x_seq 407 - 1\<bar> \<le> 3 / 200" by (rule x_seq_close) simp
  have e: "x_seq 408 = one_row_step (2 * (1 / 2) ^ 37) (x_seq 407)"
    using x_seq_numeral [of 407] by simp
  have s: "\<bar>x_seq 408 - x_seq 407\<bar> = 2 * (1 / 2) ^ 37 * (1 / 20 + \<bar>x_seq 407 - 1\<bar>)"
    unfolding e by (rule one_row_step_size [OF _ _ c]) (simp_all add: power_one_over)
  have "0 < 2 * (1 / 2) ^ 37 * (1 / 20 + \<bar>x_seq 407 - 1\<bar>)" by simp
  with s show "x_seq 408 \<noteq> x_seq 407" by auto
  have "2 * (1 / 2) ^ 37 * (1 / 20 + \<bar>x_seq 407 - 1\<bar>) \<le> 2 * (1 / 2) ^ 37 * (1 / 20 + 3 / 200)"
    using c by (intro mult_left_mono) simp_all
  also have "\<dots> \<le> ZERO_TOL" by (simp add: ZERO_TOL_def power_one_over)
  finally show "\<not> ZERO_TOL < \<bar>x_seq 408 - x_seq 407\<bar>" using s by simp
qed

lemma two_ones_spec: "reduced_cost_spec two_ones [x] 0 = 1 - x"
  by (simp add: reduced_cost_spec_def two_ones_lists) (simp add: two_ones_def)

text \<open>
  C5 fails in the basic driver: on the instance with one row covered by two columns of
  cost 1, with upper bound 1, the run reaches iteration 407 with reduced costs that agree
  with the dual vector; there \<open>lambda\<close> is \<open>2 ^ -36\<close> and the step of the row is not zero
  but inside the tolerance \<open>ZERO_TOL\<close>, so the row loop stores the new dual and leaves the
  reduced costs as they were. The objective of iteration 407 is evaluated, and iteration
  408 starts, with reduced costs that are not those of the dual vector.
\<close>

theorem basic_reduced_costs_stale:
  "\<exists>s s'. basic_head two_ones 1 junk 407 = Some s \<and>
     basic_head two_ones 1 junk 408 = Some s' \<and> s' = basic_iteration two_ones 1 s \<and>
     reduced_costs s ! 0 = reduced_cost_spec two_ones (buf s (old_dual s)) 0 \<and>
     buf s' (old_dual s') \<noteq> buf s (old_dual s) \<and>
     reduced_costs s' = reduced_costs s \<and>
     reduced_costs s' ! 0 \<noteq> reduced_cost_spec two_ones (buf s' (old_dual s')) 0"
proof -
  have "\<forall>k<407. ZERO_TOL < \<bar>x_seq (Suc k) - x_seq k\<bar>"
  proof (intro allI impI)
    fix k :: nat assume "k < 407"
    then have "k \<le> 406" by simp
    then show "ZERO_TOL < \<bar>x_seq (Suc k) - x_seq k\<bar>" by (rule x_seq_moves)
  qed
  then obtain s where h: "basic_head two_ones 1 junk 407 = Some s"
    and t: "tracks 407 s (x_seq 407)"
    using head_tracks by blast
  define s' where "s' = basic_iteration two_ones 1 s"
  from t have l: "lambda s = 2 * (1 / 2) ^ 37" by (simp add: tracks_def)
  have e: "one_row_step (lambda s) (x_seq 407) = x_seq 408"
    using x_seq_numeral [of 407] by (simp add: l)
  note i = one_row_iteration(1,2,3,5) [OF t, unfolded e, folded s'_def]
  have rc: "reduced_costs s' = [1 - x_seq 407, 1 - x_seq 407]"
    using x_seq_stalls(2) by (rule i(4))
  have h': "basic_head two_ones 1 junk 408 = Some s'"
    using basic_head.simps(2) [of two_ones 1 junk 407] i(1)
    by (simp add: h s'_def Let_def)
  from t have f: "old_dual s = Dual1" "dual1 s = [x_seq 407]"
    "reduced_costs s = [1 - x_seq 407, 1 - x_seq 407]"
    by (simp_all add: tracks_def)
  have b: "buf s (old_dual s) = [x_seq 407]" "buf s' (old_dual s') = [x_seq 408]"
    by (simp_all add: buf_def f i)
  have "reduced_costs s ! 0 = reduced_cost_spec two_ones (buf s (old_dual s)) 0"
    unfolding b f(3) two_ones_spec by simp
  moreover have "buf s' (old_dual s') \<noteq> buf s (old_dual s)"
    unfolding b using x_seq_stalls(1) by simp
  moreover have "reduced_costs s' = reduced_costs s"
    unfolding rc f(3) by (rule refl)
  moreover have "reduced_costs s' ! 0 \<noteq> reduced_cost_spec two_ones (buf s' (old_dual s')) 0"
    unfolding b rc two_ones_spec using x_seq_stalls(1) by simp
  ultimately show ?thesis
    using h h' s'_def by blast
qed

section \<open>The first iterations on one wide row and on one row with two columns\<close>

lemma wide_row_lists:
  "num_col (wide_row k) = k" "num_row (wide_row k) = 1"
  "i < k \<Longrightarrow> col_rows (wide_row k) i = [0]" "row_cols (wide_row k) 0 = [0..<k]"
  "i < k \<Longrightarrow> costs (wide_row k) ! i = 1"
proof -
  show "num_col (wide_row k) = k" "num_row (wide_row k) = 1"
    by (simp_all add: wide_row_def)
  show "col_rows (wide_row k) i = [0]" if "i < k"
  proof -
    have "[i..<Suc i] = [i]" by simp
    with that show ?thesis
      by (simp add: col_rows_def wide_row_def nth_append del: upt_Suc)
  qed
  show "row_cols (wide_row k) 0 = [0..<k]"
    using map_nth [of "[0..<k]"] by (simp add: row_cols_def wide_row_def)
  show "costs (wide_row k) ! i = 1" if "i < k"
    using that by (simp add: wide_row_def)
qed

lemma wide_row_valid:
  assumes "0 < k"
  shows "valid_instance (wide_row k)"
proof -
  have "count_list [0..<n] i = (if i < n then 1 else 0)" for n i :: nat
    by (induction n) auto
  then have "count_list [0..<k] i = 1" if "i < k" for i
    using that by simp
  then have "wf_instance (wide_row k)"
    unfolding wf_instance_def list_all_upt wide_row_lists
    by (simp add: wide_row_lists) (simp add: wide_row_def nth_append list_all_iff del: upt_Suc)
  then show ?thesis
    using assms
    by (simp add: valid_instance_def list_all_upt wide_row_lists)
      (simp add: wide_row_def list_all_iff)
qed

lemma wide_row_init:
  assumes "0 < k" and "init_dual_vector (wide_row k) = (du, rcs, obj)"
  shows "du = [1]" and "length rcs = k" and "\<forall>c<k. rcs ! c = 0" and "obj = 1"
proof -
  note f = init_dual_vector_facts [OF wide_row_valid [OF assms(1)] assms(2)]
  have "cost_share (wide_row k) c = 1" if "c < k" for c
    using that by (simp add: cost_share_def wide_row_def)
  then have "cost_share (wide_row k) ` set [0..<k] = {1}"
    using assms(1) by auto
  with f have "length du = 1" "du ! 0 = 1"
    by (simp_all add: wide_row_lists)
  then show du: "du = [1]" by (cases du) simp_all
  from f show "length rcs = k" by (simp add: wide_row_lists)
  from f show "\<forall>c<k. rcs ! c = 0"
    by (simp add: wide_row_lists reduced_cost_spec_def du)
  from f show "obj = 1" by (simp add: du)
qed

lemma wide_row_subg:
  assumes "\<forall>c<k. rcs ! c = 0"
  shows "count_subg (wide_row k) rcs = [1 - int k]"
proof -
  have "map (\<lambda>i. if rcs ! i < tol14 then count_list (col_rows (wide_row k) i) 0 else 0) [0..<k] =
      map (\<lambda>i. 1) [0..<k]"
    using assms by (intro map_cong refl) (simp add: wide_row_lists tol14_def)
  then have "cover_below (wide_row k) rcs 0 = sum_list (map (\<lambda>i. 1) [0..<k])"
    unfolding cover_below_def wide_row_lists by (rule arg_cong)
  then have "cover_below (wide_row k) rcs 0 = k"
    by (simp add: sum_list_triv)
  then have "count_subg (wide_row k) rcs ! 0 = 1 - int k"
    by (simp add: count_subg_nth wide_row_lists)
  moreover have "length (count_subg (wide_row k) rcs) = 1"
    by (simp add: length_count_subg wide_row_lists)
  ultimately show ?thesis by (cases "count_subg (wide_row k) rcs") simp_all
qed

text \<open>
  On the same instance, with the initial dual vector and reduced costs, the sign-aware
  computation returns the wrapped product as the squared norm.
\<close>

lemma wide_row_basic:
  "compute_subg_vector_basic (wide_row 50000) (replicate 50000 0) [1] =
     ([- 49999], - 1795067295)"
proof -
  have "count_subg (wide_row 50000) (replicate 50000 0) = [- 49999]"
    using wide_row_subg [of 50000 "replicate 50000 0"] by simp
  then show ?thesis
    by (simp add: compute_subg_vector_basic_def wide_row_lists clamp_step_def int_mult_def
        wrap_int_def tol14_def)
qed

lemma wide_row_head:
  "\<exists>s. sps_head (wide_row 50000) junk 0 = Some s \<and> subg1 s = [- 49999] \<and> eta_not s = NaN"
proof -
  obtain du rcs obj where i: "init_dual_vector (wide_row 50000) = (du, rcs, obj)"
    by (metis prod_cases3)
  have g: "count_subg (wide_row 50000) rcs = [- 49999]"
    using wide_row_subg [OF wide_row_init(3) [OF _ i]] by simp
  have w: "int_mult (- 49999) (- 49999) = - 1795067295"
    by (simp add: int_mult_def wrap_int_def)
  show ?thesis
    by (simp add: sps_init_def i compute_subg_vector_sps_def g Let_def sps_start_def w
        ieee_sqrt_def)
qed

text \<open>
  C9 says that in the first iteration of every run of the spectral driver \<open>eta_not\<close> is at
  least 1, \<open>eta\<close> is plus infinity and the threshold \<open>accept\<close> is minus infinity. The code at
  an input with a row of more than 46341 entries: on the instance with one row covered by
  50000 columns of cost 1 the run enters the loop with the subgradient vector \<open>[-49999]\<close>,
  the \<open>int\<close> product \<open>subg1[0] * subg1[0]\<close> wraps to \<open>-1795067295\<close>, and \<open>eta_not\<close>, the square
  root of a negative number, is NaN and not at least 1; \<open>eta\<close> and \<open>accept\<close> are NaN, not plus
  and minus infinity. The loop condition \<open>curr_obj < accept\<close> is false all the same and the
  tentative step is accepted as it is.
\<close>

theorem first_iteration_eta_not_overflow:
  "\<exists>s. sps_head (wide_row 50000) junk 0 = Some s \<and> subg1 s = [- 49999] \<and>
      int_mult (- 49999) (- 49999) = - 1795067295 \<and> eta_not s = NaN \<and>
      ieee_quot (eta_not s) (real 0 powr (11 / 10)) = NaN \<and>
      accept (tentative (wide_row 50000) 0 s) = NaN \<and>
      line_search (wide_row 50000) (tentative (wide_row 50000) 0 s) =
        Some (tentative (wide_row 50000) 0 s)"
proof -
  obtain s where h: "sps_head (wide_row 50000) junk 0 = Some s" and g: "subg1 s = [- 49999]"
    and e: "eta_not s = NaN"
    using wide_row_head by blast
  have w: "int_mult (- 49999) (- 49999) = - 1795067295"
    by (simp add: int_mult_def wrap_int_def)
  have "eta_not s = ieee_sqrt (- 1)" by (simp add: e ieee_sqrt_def)
  from first_search [OF this, of "wide_row 50000"]
  have "accept (tentative (wide_row 50000) 0 s) = NaN"
    and "line_search (wide_row 50000) (tentative (wide_row 50000) 0 s) =
        Some (tentative (wide_row 50000) 0 s)"
    by simp_all
  then show ?thesis using h g e w by auto
qed

lemma two_ones_head_0: "sps_head two_ones junk 0 = Some (two_ones_at_0 junk)"
proof -
  have "sps_init two_ones junk = (two_ones_at_0 junk)\<lparr>alpha := 0, eta_not := Fin 0\<rparr>"
    unfolding two_ones_at_0_def by code_simp
  then show ?thesis
    by (simp add: Let_def)
      (simp add: two_ones_at_0_def sps_start_def int_mult_def wrap_int_def ieee_sqrt_def)
qed

lemma two_ones_iteration_0:
  "sps_iteration two_ones 0 (two_ones_at_0 junk) = Inr (two_ones_at_1 junk)"
proof -
  have ts: "tentative_step two_ones 0 (two_ones_at_0 junk) =
      (two_ones_at_0 junk)\<lparr>dual1 := [9 / 10], reduced_costs := [1 / 10, 1 / 10],
        curr_obj := 9 / 10, momentum := [- (1 / 10)], dd := [(0, - (1 / 10))],
        sub_obj := 9 / 10, product := 1 / 100\<rparr>"
    unfolding two_ones_at_0_def by code_simp
  have e: "eta_not (two_ones_at_0 junk) = ieee_sqrt 1"
    by (simp add: two_ones_at_0_def ieee_sqrt_def)
  have t: "tentative two_ones 0 (two_ones_at_0 junk) =
      (two_ones_at_0 junk)\<lparr>dual1 := [9 / 10], reduced_costs := [1 / 10, 1 / 10],
        curr_obj := 9 / 10, momentum := [- (1 / 10)], dd := [(0, - (1 / 10))],
        sub_obj := 9 / 10, product := 1 / 10, tau := 1, accept := MInf\<rparr>"
    by (simp add: tentative_def ts start_search_def Let_def)
      (simp add: two_ones_at_0_def ieee_div_def)
  have r: "(let s = next_subg two_ones 0 (update_best
      ((two_ones_at_0 junk)\<lparr>dual1 := [9 / 10], reduced_costs := [1 / 10, 1 / 10],
        curr_obj := 9 / 10, momentum := [- (1 / 10)], dd := [(0, - (1 / 10))],
        sub_obj := 9 / 10, product := 1 / 10, tau := 1, accept := MInf\<rparr>)) in
      if is_opt s then Inr s
      else (let s = update_alpha 0 s in
            case update_worst 0 (curr_obj s) (past_objs s, worst_obj s, worst_obj_idx s) of
              None \<Rightarrow> Inl Uninitialised_read
            | Some (p, w, j) \<Rightarrow> Inr (s\<lparr>past_objs := p, worst_obj := w, worst_obj_idx := j\<rparr>))) =
      Inr (two_ones_at_1 junk)"
    unfolding two_ones_at_0_def two_ones_at_1_def by code_simp
  have ls: "line_search two_ones (tentative two_ones 0 (two_ones_at_0 junk)) =
      Some (tentative two_ones 0 (two_ones_at_0 junk))"
    by (rule first_search(3) [OF e])
  have "sps_iteration two_ones 0 (two_ones_at_0 junk) =
      (let s = next_subg two_ones 0 (update_best (tentative two_ones 0 (two_ones_at_0 junk))) in
      if is_opt s then Inr s
      else (let s = update_alpha 0 s in
            case update_worst 0 (curr_obj s) (past_objs s, worst_obj s, worst_obj_idx s) of
              None \<Rightarrow> Inl Uninitialised_read
            | Some (p, w, j) \<Rightarrow> Inr (s\<lparr>past_objs := p, worst_obj := w, worst_obj_idx := j\<rparr>)))"
    by (simp only: sps_iteration_def ls option.case)
  then show ?thesis
    by (simp only: t r)
qed

lemma two_ones_iteration_1:
  "sps_iteration two_ones 1 (two_ones_at_1 junk) = Inr (two_ones_at_2 junk)"
proof -
  have ts: "tentative_step two_ones 1 (two_ones_at_1 junk) =
      (two_ones_at_1 junk)\<lparr>dual1 := [22 / 25], reduced_costs := [3 / 25, 3 / 25],
        curr_obj := 22 / 25, momentum := [- (1 / 50)], dd := [(0, - (1 / 50))],
        sub_obj := 22 / 25, product := 1 / 2500\<rparr>"
    unfolding two_ones_at_1_def by code_simp
  have t: "tentative two_ones 1 (two_ones_at_1 junk) =
      (two_ones_at_1 junk)\<lparr>dual1 := [22 / 25], reduced_costs := [3 / 25, 3 / 25],
        curr_obj := 22 / 25, momentum := [- (1 / 50)], dd := [(0, - (1 / 50))],
        sub_obj := 22 / 25, product := 1 / 125, tau := 1, accept := Fin (- (62 / 625))\<rparr>"
    unfolding tentative_def ts
    by (simp add: start_search_def Let_def two_ones_at_1_def ieee_div_def gamma_def)
  have "\<not> ls_cond (tentative two_ones 1 (two_ones_at_1 junk))"
    unfolding t ls_cond_def by (simp add: two_ones_at_1_def)
  then have ls: "line_search two_ones (tentative two_ones 1 (two_ones_at_1 junk)) =
      Some (tentative two_ones 1 (two_ones_at_1 junk))"
    by (rule line_search_stop)
  have r: "(let s = next_subg two_ones 1 (update_best
      ((two_ones_at_1 junk)\<lparr>dual1 := [22 / 25], reduced_costs := [3 / 25, 3 / 25],
        curr_obj := 22 / 25, momentum := [- (1 / 50)], dd := [(0, - (1 / 50))],
        sub_obj := 22 / 25, product := 1 / 125, tau := 1, accept := Fin (- (62 / 625))\<rparr>)) in
      if is_opt s then Inr s
      else (let s = update_alpha 1 s in
            case update_worst 1 (curr_obj s) (past_objs s, worst_obj s, worst_obj_idx s) of
              None \<Rightarrow> Inl Uninitialised_read
            | Some (p, w, j) \<Rightarrow> Inr (s\<lparr>past_objs := p, worst_obj := w, worst_obj_idx := j\<rparr>))) =
      Inr (two_ones_at_2 junk)"
    unfolding two_ones_at_1_def two_ones_at_2_def by code_simp
  have "sps_iteration two_ones 1 (two_ones_at_1 junk) =
      (let s = next_subg two_ones 1 (update_best (tentative two_ones 1 (two_ones_at_1 junk))) in
      if is_opt s then Inr s
      else (let s = update_alpha 1 s in
            case update_worst 1 (curr_obj s) (past_objs s, worst_obj s, worst_obj_idx s) of
              None \<Rightarrow> Inl Uninitialised_read
            | Some (p, w, j) \<Rightarrow> Inr (s\<lparr>past_objs := p, worst_obj := w, worst_obj_idx := j\<rparr>)))"
    by (simp only: sps_iteration_def ls option.case)
  then show ?thesis
    by (simp only: t r)
qed

lemma two_ones_head_1: "sps_head two_ones junk (Suc 0) = Some (two_ones_at_1 junk)"
  unfolding sps_head.simps(2) [of two_ones junk 0] two_ones_head_0 option.case
    two_ones_iteration_0 sum.case
  by (simp add: two_ones_at_1_def)

lemma two_ones_head_2: "sps_head two_ones junk 2 = Some (two_ones_at_2 junk)"
proof -
  have "sps_head two_ones junk (Suc (Suc 0)) = Some (two_ones_at_2 junk)"
    unfolding sps_head.simps(2) [of two_ones junk "Suc 0"] two_ones_head_1 option.case
      two_ones_iteration_1 [unfolded One_nat_def] sum.case
    by (simp add: two_ones_at_2_def)
  then show ?thesis by (simp add: numeral_2_eq_2)
qed

lemma two_ones_objs: "sps_objs two_ones junk 2 = [1, 9 / 10, 22 / 25]"
proof -
  have "[0..<Suc 2] = [0, Suc 0, 2]" by (simp add: upt_rec)
  then show ?thesis
    unfolding sps_objs_def
    by (simp only: list.map head_obj_def two_ones_head_0 two_ones_head_1 two_ones_head_2
        option.case)
      (simp add: two_ones_at_0_def two_ones_at_1_def two_ones_at_2_def)
qed

theorem worst_obj_window_minimum_witness:
  "sps_head two_ones [7] 2 = Some (two_ones_at_2 [7]) \<and>
   sps_objs two_ones [7] 2 = [1, 9 / 10, 22 / 25] \<and>
   worst_obj (two_ones_at_2 [7]) = Min (set (window_of (sps_objs two_ones [7] 2))) \<and>
   worst_obj (two_ones_at_2 [7]) = 22 / 25 \<and>
   worst_obj_idx (two_ones_at_2 [7]) = 2 \<and>
   past_objs (two_ones_at_2 [7]) ! worst_obj_idx (two_ones_at_2 [7]) =
     Some (worst_obj (two_ones_at_2 [7])) \<and>
   sps_iteration two_ones 2 (two_ones_at_2 [7]) \<noteq> Inl Uninitialised_read"
proof -
  note w = worst_obj_window_minimum [OF two_ones_head_2 [of "[7]"]]
  from w have "worst_obj (two_ones_at_2 [7]) = Min (set (window_of (sps_objs two_ones [7] 2)))"
    by (rule conjunct1)
  moreover from w have "past_objs (two_ones_at_2 [7]) ! worst_obj_idx (two_ones_at_2 [7]) =
     Some (worst_obj (two_ones_at_2 [7]))" by blast
  moreover from w have "sps_iteration two_ones 2 (two_ones_at_2 [7]) \<noteq> Inl Uninitialised_read"
    by blast
  moreover have "worst_obj (two_ones_at_2 [7]) = 22 / 25"
    and "worst_obj_idx (two_ones_at_2 [7]) = 2"
    by (simp_all add: two_ones_at_2_def)
  ultimately show ?thesis
    using two_ones_head_2 [of "[7]"] two_ones_objs [of "[7]"] by blast
qed

end
